theory Spec2Isabelle
  imports Complex_Main
begin

section \<open>Values and exceptions of the Python program\<close>

text \<open>
  The program is \<^verbatim>\<open>black_scholes_merton.py\<close>: the pricer \<^verbatim>\<open>option_price\<close> and the solver
  \<^verbatim>\<open>implied_volatility\<close>. A finite Python float is modelled as the real number it
  denotes. The first embedding of the pricer, \<open>option_price\<close>, computes in exact arithmetic:
  rounding, overflow and signed zeros are outside it. The second, \<open>option_price_f64\<close>, rounds
  the result of every operation to binary64 and raises what Python's float power raises; it
  is used where a property depends on what floats do. The one non-finite float the program
  itself produces, \<^verbatim>\<open>np.nan\<close>, is a constructor of its own.
\<close>

datatype pyfloat = Num real | NaN

text \<open>
  The exceptions that can occur: \<^verbatim>\<open>ValueError\<close> (raised by \<^verbatim>\<open>option_price\<close> itself and
  by the root finder), \<^verbatim>\<open>RuntimeError\<close> (raised by the root finder),
  \<^verbatim>\<open>ZeroDivisionError\<close> (the float division \<^verbatim>\<open>S / K\<close> with \<^verbatim>\<open>K = 0.0\<close>) and
  \<^verbatim>\<open>OverflowError\<close> (the float power \<^verbatim>\<open>sigma**2\<close> when the square is out of range).
\<close>

datatype exn = ValueError | RuntimeError | ZeroDivisionError | OverflowError


section \<open>The standard normal distribution function\<close>

text \<open>
  \<^verbatim>\<open>scipy.stats.norm.cdf\<close> is the distribution function of the standard normal law. It is
  defined here by its power series around 0,
  \<open>\<Phi>(x) = 1/2 + (1 / sqrt (2 \<pi>)) * (\<Sum>k. (-1)^k * x^(2k+1) / (2^k * k! * (2k+1)))\<close>,
  written with one coefficient for every power of \<open>x\<close>, as the library writes the sine.
\<close>

definition gauss_coeff :: "nat \<Rightarrow> real" where
  "gauss_coeff n = (if even n then (- 1) ^ (n div 2) / (2 ^ (n div 2) * fact (n div 2)) else 0)"

definition gauss_int_coeff :: "nat \<Rightarrow> real" where
  "gauss_int_coeff n = (if even n then 0 else gauss_coeff (n - 1) / real n)"

definition gauss_int :: "real \<Rightarrow> real" where
  "gauss_int x = (\<Sum>n. gauss_int_coeff n * x ^ n)"

definition norm_pdf :: "real \<Rightarrow> real" where
  "norm_pdf x = exp (- (x\<^sup>2) / 2) / sqrt (2 * pi)"

definition norm_cdf :: "real \<Rightarrow> real" where
  "norm_cdf x = 1 / 2 + gauss_int x / sqrt (2 * pi)"

text \<open>
  The absolute value of the \<open>k\<close>-th non-zero term of the series of \<open>gauss_int\<close>. For
  \<open>0 \<le> x\<close> the series alternates, which encloses its sum between two partial sums.
\<close>

definition gauss_term :: "real \<Rightarrow> nat \<Rightarrow> real" where
  "gauss_term x k = x ^ (2 * k + 1) / (2 ^ k * fact k * real (2 * k + 1))"

text \<open>
  The antiderivative of \<open>cos ^ k\<close> that vanishes at 0, by the reduction formula. Its values
  at \<open>pi / 2\<close> are the Wallis integrals; they bound the integral of the Gaussian density
  from both sides and give its limit, hence \<open>norm_cdf x \<le> 1\<close> and the size of the tail.
\<close>

fun cos_int :: "nat \<Rightarrow> real \<Rightarrow> real" where
  "cos_int 0 x = x"
| "cos_int (Suc 0) x = sin x"
| "cos_int (Suc (Suc n)) x =
     (cos x ^ Suc n * sin x + real (Suc n) * cos_int n x) / real (Suc (Suc n))"

section \<open>The pricer\<close>

text \<open>
  \<^verbatim>\<open>option_price(S, K, T, r, sigma, q, option_type)\<close>. \<^verbatim>\<open>S / K\<close> divides two Python
  floats and raises \<^verbatim>\<open>ZeroDivisionError\<close> when \<^verbatim>\<open>K\<close> is zero; it is evaluated first.
  (This is the division of Python's own \<^verbatim>\<open>float\<close>, the type of the signature. A strike
  that is a \<^verbatim>\<open>numpy.float64\<close> gives an infinity or nan there, with a warning. The data
  model has positive strikes only, and every statement below about prices or about the
  option type is for a positive strike.) The
  numpy operations (\<^verbatim>\<open>np.log\<close>, \<^verbatim>\<open>np.sqrt\<close>, the division by \<^verbatim>\<open>sigma * np.sqrt(T)\<close>) never
  raise: outside \<open>S / K > 0\<close>, \<open>T > 0\<close>, \<open>sigma \<noteq> 0\<close> they give nan or an infinity, which
  this model does not represent, so every statement below about a returned price has these
  preconditions. \<^verbatim>\<open>d1\<close> and \<^verbatim>\<open>d2\<close> are computed before the option type is looked at.
\<close>

definition option_price ::
  "real \<Rightarrow> real \<Rightarrow> real \<Rightarrow> real \<Rightarrow> real \<Rightarrow> real \<Rightarrow> string \<Rightarrow> exn + real" where
  "option_price S K T r sigma q option_type =
     (if K = 0 then Inl ZeroDivisionError
      else
        let d1 = (ln (S / K) + (r - q + 0.5 * sigma\<^sup>2) * T) / (sigma * sqrt T);
            d2 = d1 - sigma * sqrt T
        in if option_type = ''c'' then
             Inr (S * exp (- q * T) * norm_cdf d1 - K * exp (- r * T) * norm_cdf d2)
           else if option_type = ''p'' then
             Inr (K * exp (- r * T) * norm_cdf (- d2) - S * exp (- q * T) * norm_cdf (- d1))
           else Inl ValueError)"

text \<open>The formulas of the specification, written from its words, to compare with the code.\<close>

definition bsm_d1 :: "real \<Rightarrow> real \<Rightarrow> real \<Rightarrow> real \<Rightarrow> real \<Rightarrow> real \<Rightarrow> real" where
  "bsm_d1 S K T r sigma q = (ln (S / K) + (r - q + sigma\<^sup>2 / 2) * T) / (sigma * sqrt T)"

definition bsm_d2 :: "real \<Rightarrow> real \<Rightarrow> real \<Rightarrow> real \<Rightarrow> real \<Rightarrow> real \<Rightarrow> real" where
  "bsm_d2 S K T r sigma q = bsm_d1 S K T r sigma q - sigma * sqrt T"

definition bsm_call :: "real \<Rightarrow> real \<Rightarrow> real \<Rightarrow> real \<Rightarrow> real \<Rightarrow> real \<Rightarrow> real" where
  "bsm_call S K T r sigma q =
     S * exp (- (q * T)) * norm_cdf (bsm_d1 S K T r sigma q)
       - K * exp (- (r * T)) * norm_cdf (bsm_d2 S K T r sigma q)"


section \<open>The pricer in binary64 arithmetic\<close>

text \<open>
  Python floats are IEEE 754 binary64 numbers: 53 significant bits, every arithmetic operation
  rounded to the nearest float, ties to the even significand. \<open>round_even\<close> is the nearest
  integer with ties to even, and \<open>round64 x\<close> the nearest number with 53 significant bits:
  \<open>x\<close> is scaled by the power of two that brings it into \<open>[2^52, 2^53)\<close>, rounded to an
  integer and scaled back. The exponent range is not limited here: subnormal numbers and the
  infinities that numpy's operations give out of range are outside the model.
\<close>

definition round_even :: "real \<Rightarrow> int" where
  "round_even y =
     (let n = \<lfloor>y\<rfloor>; d = y - of_int n
      in if d < 1 / 2 then n else if 1 / 2 < d then n + 1 else if even n then n else n + 1)"

definition round64 :: "real \<Rightarrow> real" where
  "round64 x =
     (if x = 0 then 0
      else let e = \<lfloor>log 2 \<bar>x\<bar>\<rfloor> - 52 in of_int (round_even (x / 2 powi e)) * 2 powi e)"

text \<open>
  \<^verbatim>\<open>sigma**2\<close> on a Python float: \<^verbatim>\<open>float.__pow__\<close> raises \<^verbatim>\<open>OverflowError\<close> when the
  result is out of range, which is when the exact square rounds to infinity, from
  \<open>2^1024 - 2^970\<close> on (the largest float is \<open>2^1024 - 2^971\<close>). No other operation of
  \<^verbatim>\<open>option_price\<close> raises on overflow: float multiplication and division and numpy's
  functions give an infinity. (This is the power of Python's own \<^verbatim>\<open>float\<close>, the type of
  the signature; the power of a \<^verbatim>\<open>numpy.float64\<close> gives an infinity with a warning.)
\<close>

definition py_pow2 :: "real \<Rightarrow> exn + real" where
  "py_pow2 x = (if 2 ^ 1024 - 2 ^ 970 \<le> x\<^sup>2 then Inl OverflowError else Inr (round64 (x\<^sup>2)))"

text \<open>
  The same statements of \<^verbatim>\<open>option_price\<close> with every operation rounded. The arguments are
  floats. \<^verbatim>\<open>np.sqrt\<close> is correctly rounded by the IEEE standard; \<^verbatim>\<open>np.log\<close>,
  \<^verbatim>\<open>np.exp\<close> and \<^verbatim>\<open>norm.cdf\<close> are taken as correctly rounded too. Python evaluates
  \<^verbatim>\<open>S / K\<close> first and \<^verbatim>\<open>sigma**2\<close> next, each before the option type is looked at.
\<close>

definition option_price_f64 ::
  "real \<Rightarrow> real \<Rightarrow> real \<Rightarrow> real \<Rightarrow> real \<Rightarrow> real \<Rightarrow> string \<Rightarrow> exn + real" where
  "option_price_f64 S K T r sigma q option_type =
     (if K = 0 then Inl ZeroDivisionError
      else case py_pow2 sigma of
        Inl e \<Rightarrow> Inl e
      | Inr sigma2 \<Rightarrow>
        let d1 = round64 (round64 (round64 (ln (round64 (S / K)))
                     + round64 (round64 (round64 (r - q) + round64 (0.5 * sigma2)) * T))
                   / round64 (sigma * round64 (sqrt T)));
            d2 = round64 (d1 - round64 (sigma * round64 (sqrt T)))
        in if option_type = ''c'' then
             Inr (round64 (round64 (round64 (S * round64 (exp (round64 (- q * T))))
                             * round64 (norm_cdf d1))
                    - round64 (round64 (K * round64 (exp (round64 (- r * T))))
                                * round64 (norm_cdf d2))))
           else if option_type = ''p'' then
             Inr (round64 (round64 (round64 (K * round64 (exp (round64 (- r * T))))
                             * round64 (norm_cdf (- d2)))
                    - round64 (round64 (S * round64 (exp (round64 (- q * T))))
                                * round64 (norm_cdf (- d1)))))
           else Inl ValueError)"

section \<open>The solver\<close>

text \<open>
  The root finder \<^verbatim>\<open>scipy.optimize.brentq\<close> is a library routine. \<^verbatim>\<open>implied_volatility\<close>
  takes it as its first argument: a function of the callback, the two ends of the bracket,
  \<^verbatim>\<open>xtol\<close> and \<^verbatim>\<open>maxiter\<close> that returns a root or raises. The callback may raise, so it
  returns a sum as well.
\<close>

type_synonym root_finder = "(real \<Rightarrow> exn + real) \<Rightarrow> real \<Rightarrow> real \<Rightarrow> real \<Rightarrow> int \<Rightarrow> exn + real"

text \<open>The closure \<^verbatim>\<open>target_fn\<close> of \<^verbatim>\<open>implied_volatility\<close>, with the variables it captures.\<close>

definition target_fn ::
  "real \<Rightarrow> real \<Rightarrow> real \<Rightarrow> real \<Rightarrow> real \<Rightarrow> real \<Rightarrow> string \<Rightarrow> real \<Rightarrow> exn + real" where
  "target_fn S K T r q market_price option_type sigma =
     (case option_price S K T r sigma q option_type of
        Inl e \<Rightarrow> Inl e
      | Inr p \<Rightarrow> Inr (p - market_price))"

text \<open>
  \<^verbatim>\<open>implied_volatility(S, K, T, r, q, market_price, option_type, tol, max_iter)\<close>: the guard
  returns \<^verbatim>\<open>np.nan\<close>; the \<^verbatim>\<open>except (ValueError, RuntimeError)\<close> clause turns these two
  exceptions into \<^verbatim>\<open>np.nan\<close> and lets every other exception through.
\<close>

definition implied_volatility ::
  "root_finder \<Rightarrow> real \<Rightarrow> real \<Rightarrow> real \<Rightarrow> real \<Rightarrow> real \<Rightarrow> real \<Rightarrow> string \<Rightarrow> real \<Rightarrow> int
     \<Rightarrow> exn + pyfloat" where
  "implied_volatility brentq S K T r q market_price option_type tol max_iter =
     (if T \<le> 0 \<or> market_price \<le> 0 then Inr NaN
      else
        case brentq (target_fn S K T r q market_price option_type) (1 / 10 ^ 6) 200 tol max_iter of
          Inr x \<Rightarrow> Inr (Num x)
        | Inl ValueError \<Rightarrow> Inr NaN
        | Inl RuntimeError \<Rightarrow> Inr NaN
        | Inl e \<Rightarrow> Inl e)"


section \<open>The root finder of the specification\<close>

text \<open>
  Modelled from the spec: \<^verbatim>\<open>scipy.optimize.brentq\<close>, which is not part of the sources. The
  specification (4.2) asks for a bracketing root finder over \<open>[a, b]\<close> that needs no derivative
  (``Brent's method or equivalent''), that stops ``when the bracket width or the function value
  is within tolerance, or after max_iterations iterations, whichever first'', and that fails
  when the bracket holds no sign change or when the iterations run out. Bisection is the
  simplest such method. The two failures are the exceptions of the solver's \<^verbatim>\<open>except\<close>
  clause: \<^verbatim>\<open>ValueError\<close> for the missing sign change, \<^verbatim>\<open>RuntimeError\<close> for the iterations.
  An exception of the callback passes through.
\<close>

text \<open>
  Modelled from the spec: the convergence test of the missing \<^verbatim>\<open>brentq\<close> (``stop when the
  bracket width or the function value is within tolerance''), on a bracket \<open>[lo, hi]\<close> with the
  function values at its ends.
\<close>

definition converged :: "real \<Rightarrow> real \<Rightarrow> real \<Rightarrow> real \<Rightarrow> real \<Rightarrow> real option" where
  "converged xtol lo flo hi fhi =
     (if \<bar>flo\<bar> \<le> xtol then Some lo
      else if \<bar>fhi\<bar> \<le> xtol then Some hi
      else if hi - lo \<le> xtol then Some lo
      else None)"

text \<open>
  Modelled from the spec: the iteration of the missing \<^verbatim>\<open>brentq\<close>. The convergence test comes
  before the count of iterations (``whichever first''); an iteration evaluates the callback at
  the midpoint and keeps the half of the bracket across which the sign changes.
\<close>

fun bisect ::
  "(real \<Rightarrow> exn + real) \<Rightarrow> real \<Rightarrow> nat \<Rightarrow> real \<Rightarrow> real \<Rightarrow> real \<Rightarrow> real \<Rightarrow> exn + real" where
  "bisect f xtol 0 lo flo hi fhi =
     (case converged xtol lo flo hi fhi of
        Some x \<Rightarrow> Inr x
      | None \<Rightarrow> Inl RuntimeError)"
| "bisect f xtol (Suc n) lo flo hi fhi =
     (case converged xtol lo flo hi fhi of
        Some x \<Rightarrow> Inr x
      | None \<Rightarrow>
          (case f ((lo + hi) / 2) of
             Inl e \<Rightarrow> Inl e
           | Inr fm \<Rightarrow>
               if (fm < 0) = (flo < 0) then bisect f xtol n ((lo + hi) / 2) fm hi fhi
               else bisect f xtol n lo flo ((lo + hi) / 2) fm))"

text \<open>
  Modelled from the spec: the entry of the missing \<^verbatim>\<open>brentq(f, a, b, xtol, maxiter)\<close>. It
  evaluates the callback at both ends and fails when the bracket holds no sign change.
\<close>

definition brentq_spec :: root_finder where
  "brentq_spec f a b xtol maxiter =
     (case f a of
        Inl e \<Rightarrow> Inl e
      | Inr fa \<Rightarrow>
          (case f b of
             Inl e \<Rightarrow> Inl e
           | Inr fb \<Rightarrow>
               if 0 < fa * fb then Inl ValueError
               else bisect f xtol (nat maxiter) a fa b fb))"

text \<open>
  What the specification says of the value the root finder returns, for a callback \<open>f\<close> and
  the bracket \<open>[a, b]\<close>: after at most \<open>maxiter\<close> halvings of the bracket, \<open>x\<close> is an end of a
  bracket \<open>[lo, hi]\<close> inside \<open>[a, b]\<close> across which \<open>f\<close> changes sign, and the function value at
  \<open>x\<close> or the width of that bracket is within the tolerance.
\<close>

definition found_by_bracketing ::
  "(real \<Rightarrow> exn + real) \<Rightarrow> real \<Rightarrow> real \<Rightarrow> real \<Rightarrow> nat \<Rightarrow> real \<Rightarrow> bool" where
  "found_by_bracketing f a b tol maxiter x \<longleftrightarrow>
     (\<exists>k lo hi flo fhi.
        k \<le> maxiter \<and> a \<le> lo \<and> lo \<le> hi \<and> hi \<le> b \<and> hi - lo = (b - a) / 2 ^ k \<and>
        f lo = Inr flo \<and> f hi = Inr fhi \<and> flo * fhi \<le> 0 \<and>
        (x = lo \<and> (\<bar>flo\<bar> \<le> tol \<or> hi - lo \<le> tol) \<or> x = hi \<and> \<bar>fhi\<bar> \<le> tol))"

section \<open>Properties of the standard normal distribution function\<close>

text \<open>
  The series converges everywhere, its sum is an odd function, and its derivative is the
  series of \<open>exp (- x\<^sup>2 / 2)\<close>. So \<open>norm_cdf\<close> is the function with value 1/2 at 0 whose
  derivative is the standard normal density: the standard normal distribution function.
\<close>

lemma sums_even_spread:
  fixes g :: "nat \<Rightarrow> real"
  assumes "g sums s"
  shows "(\<lambda>n. if even n then g (n div 2) else 0) sums s"
  using sums_if [OF sums_zero assms] by simp

lemma gauss_coeff_term:
  "gauss_coeff n * x ^ n = (if even n then (- (x\<^sup>2) / 2) ^ (n div 2) / fact (n div 2) else 0)"
proof (cases "even n")
  case True
  then obtain k where k: "n = 2 * k" by (elim evenE)
  have "(- (x\<^sup>2) / 2) ^ k = (- 1) ^ k * (x\<^sup>2 / 2) ^ k"
    using power_minus [of "x\<^sup>2 / 2" k] by simp
  also have "(x\<^sup>2 / 2) ^ k = x ^ (2 * k) / 2 ^ k"
    by (simp add: power_divide power_mult)
  finally have "(- (x\<^sup>2) / 2) ^ k = (- 1) ^ k * x ^ (2 * k) / 2 ^ k"
    by simp
  with k show ?thesis by (simp add: gauss_coeff_def)
next
  case False
  then show ?thesis by (simp add: gauss_coeff_def)
qed

lemma gauss_converges: "(\<lambda>n. gauss_coeff n * x ^ n) sums exp (- (x\<^sup>2) / 2)"
proof -
  have "(\<lambda>k. (- (x\<^sup>2) / 2) ^ k / fact k) sums exp (- (x\<^sup>2) / 2)"
    using exp_converges [of "- (x\<^sup>2) / 2"] by (simp add: field_simps)
  from sums_even_spread [OF this] show ?thesis
    by (simp add: gauss_coeff_term)
qed

lemma gauss_abs_term:
  "\<bar>gauss_coeff n * x ^ n\<bar> = (if even n then (x\<^sup>2 / 2) ^ (n div 2) / fact (n div 2) else 0)"
proof (cases "even n")
  case True
  have "\<bar>(- (x\<^sup>2) / 2) ^ (n div 2)\<bar> = (x\<^sup>2 / 2) ^ (n div 2)"
    by (simp add: power_abs)
  with True show ?thesis by (simp add: gauss_coeff_term abs_divide del: abs_power2)
next
  case False
  then show ?thesis by (simp add: gauss_coeff_def)
qed

lemma gauss_abs_summable: "summable (\<lambda>n. \<bar>gauss_coeff n * x ^ n\<bar>)"
proof -
  have "(\<lambda>k. (x\<^sup>2 / 2) ^ k / fact k) sums exp (x\<^sup>2 / 2)"
    using exp_converges [of "x\<^sup>2 / 2"] by (simp add: field_simps)
  from sums_even_spread [OF this] show ?thesis
    by (simp add: gauss_abs_term sums_iff)
qed

lemma gauss_int_coeff_Suc: "gauss_int_coeff (Suc n) = gauss_coeff n / real (Suc n)"
  by (simp add: gauss_int_coeff_def gauss_coeff_def)

lemma diffs_gauss_int_coeff: "diffs gauss_int_coeff = gauss_coeff"
  by (simp add: diffs_def gauss_int_coeff_Suc del: of_nat_Suc)

lemma gauss_int_term_bound:
  "norm (gauss_int_coeff (Suc n) * x ^ Suc n) \<le> \<bar>gauss_coeff n * x ^ n\<bar> * \<bar>x\<bar>"
proof -
  have "\<bar>gauss_int_coeff (Suc n) * x ^ Suc n\<bar> = \<bar>gauss_coeff n * x ^ n\<bar> * \<bar>x\<bar> / real (Suc n)"
    by (simp add: gauss_int_coeff_Suc abs_mult del: of_nat_Suc)
  also have "\<dots> \<le> \<bar>gauss_coeff n * x ^ n\<bar> * \<bar>x\<bar> / 1"
    by (rule divide_left_mono) simp_all
  finally show ?thesis by simp
qed

lemma gauss_int_summable: "summable (\<lambda>n. gauss_int_coeff n * x ^ n)"
proof -
  have "summable (\<lambda>n. gauss_int_coeff (Suc n) * x ^ Suc n)"
  proof (rule summable_comparison_test' [where N = 0])
    show "summable (\<lambda>n. \<bar>gauss_coeff n * x ^ n\<bar> * \<bar>x\<bar>)"
      using gauss_abs_summable by (rule summable_mult2)
    show "norm (gauss_int_coeff (Suc n) * x ^ Suc n) \<le> \<bar>gauss_coeff n * x ^ n\<bar> * \<bar>x\<bar>" for n
      by (rule gauss_int_term_bound)
  qed
  then show ?thesis
    by (rule summable_Suc_iff [of "\<lambda>n. gauss_int_coeff n * x ^ n", THEN iffD1])
qed

lemma DERIV_gauss_int: "DERIV gauss_int x :> exp (- (x\<^sup>2) / 2)"
proof -
  have "((\<lambda>x. \<Sum>n. gauss_int_coeff n * x ^ n) has_field_derivative
          (\<Sum>n. diffs gauss_int_coeff n * x ^ n)) (at x)"
    by (rule termdiffs_strong_converges_everywhere) (rule gauss_int_summable)
  moreover have "(\<Sum>n. diffs gauss_int_coeff n * x ^ n) = exp (- (x\<^sup>2) / 2)"
    using gauss_converges [of x] by (simp add: diffs_gauss_int_coeff sums_iff)
  moreover have "(\<lambda>x. \<Sum>n. gauss_int_coeff n * x ^ n) = gauss_int"
    by (simp add: gauss_int_def fun_eq_iff)
  ultimately show ?thesis by simp
qed

lemma gauss_int_minus: "gauss_int (- x) = - gauss_int x"
proof -
  have "gauss_int_coeff n * (- x) ^ n = - (gauss_int_coeff n * x ^ n)" for n
    by (cases "even n") (simp_all add: gauss_int_coeff_def)
  then have "gauss_int (- x) = (\<Sum>n. - (gauss_int_coeff n * x ^ n))"
    by (simp add: gauss_int_def)
  also have "\<dots> = - (\<Sum>n. gauss_int_coeff n * x ^ n)"
    by (rule suminf_minus) (rule gauss_int_summable)
  finally show ?thesis by (simp add: gauss_int_def)
qed

lemma gauss_int_0: "gauss_int 0 = 0"
  using gauss_int_minus [of 0] by simp

lemma norm_cdf_minus: "norm_cdf (- x) = 1 - norm_cdf x"
  by (simp add: norm_cdf_def gauss_int_minus)

lemma norm_cdf_0: "norm_cdf 0 = 1 / 2"
  by (simp add: norm_cdf_def gauss_int_0)

lemma DERIV_norm_cdf: "DERIV norm_cdf x :> norm_pdf x"
proof -
  have "DERIV (\<lambda>x. 1 / 2 + gauss_int x / sqrt (2 * pi)) x :> 0 + exp (- (x\<^sup>2) / 2) / sqrt (2 * pi)"
    by (intro DERIV_add DERIV_const DERIV_cdivide DERIV_gauss_int)
  moreover have "(\<lambda>x. 1 / 2 + gauss_int x / sqrt (2 * pi)) = norm_cdf"
    by (simp add: norm_cdf_def fun_eq_iff)
  ultimately show ?thesis by (simp add: norm_pdf_def)
qed

lemma norm_pdf_pos: "0 < norm_pdf x"
  by (simp add: norm_pdf_def)

text \<open>
  The distribution function is strictly increasing. Comparing the density with
  \<open>exp (1 / 2 - t)\<close> bounds it: its values lie strictly between \<open>-1/2\<close> and \<open>3/2\<close> (the exact
  bounds 0 and 1 need the Gaussian integral, which is not used here).
\<close>

lemma norm_cdf_strict_mono: "x < y \<Longrightarrow> norm_cdf x < norm_cdf y"
  by (rule DERIV_pos_imp_increasing [of x y norm_cdf]) (use DERIV_norm_cdf norm_pdf_pos in blast)+

lemma gauss_density_bound: "exp (- (t\<^sup>2) / 2) \<le> exp (1 / 2) * exp (- t)" for t :: real
proof -
  have "0 \<le> (t - 1)\<^sup>2" by simp
  then have "- (t\<^sup>2) / 2 \<le> 1 / 2 + - t" by (simp add: power2_eq_square algebra_simps)
  then have "exp (- (t\<^sup>2) / 2) \<le> exp (1 / 2 + - t)" by (simp only: exp_le_cancel_iff)
  then show ?thesis by (simp only: exp_add)
qed

lemma gauss_int_upper:
  assumes "0 \<le> x"
  shows "gauss_int x \<le> exp (1 / 2) * (1 - exp (- x))"
proof -
  let ?h = "\<lambda>t. exp (1 / 2) * (1 - exp (- t)) - gauss_int t"
  have "?h 0 \<le> ?h x"
  proof (rule DERIV_nonneg_imp_nondecreasing [of 0 x ?h])
    show "0 \<le> x" by fact
  next
    fix t :: real
    have "DERIV ?h t :> exp (1 / 2) * (0 - exp (- t) * - 1) - exp (- (t\<^sup>2) / 2)"
      by (intro DERIV_diff DERIV_cmult DERIV_const DERIV_chain2 [OF DERIV_exp] DERIV_minus
            DERIV_ident DERIV_gauss_int)
    moreover have "0 \<le> exp (1 / 2) * (0 - exp (- t) * - 1) - exp (- (t\<^sup>2) / 2)"
      using gauss_density_bound [of t] by simp
    ultimately show "\<exists>y. DERIV ?h t :> y \<and> 0 \<le> y" by blast
  qed
  then show ?thesis by (simp add: gauss_int_0)
qed

lemma gauss_int_nonneg:
  assumes "0 \<le> x"
  shows "0 \<le> gauss_int x"
proof -
  have "gauss_int 0 \<le> gauss_int x"
  proof (rule DERIV_nonneg_imp_nondecreasing [of 0 x gauss_int])
    show "0 \<le> x" by fact
  next
    fix t :: real
    have "0 \<le> exp (- (t\<^sup>2) / 2)" by simp
    with DERIV_gauss_int [of t] show "\<exists>y. DERIV gauss_int t :> y \<and> 0 \<le> y" by blast
  qed
  then show ?thesis by (simp add: gauss_int_0)
qed

lemma gauss_int_abs_less: "\<bar>gauss_int x\<bar> < exp (1 / 2)"
proof -
  have pos: "0 \<le> gauss_int y \<and> gauss_int y < exp (1 / 2)" if "0 \<le> y" for y
  proof -
    have "exp (1 / 2) * (1 - exp (- y)) < exp (1 / 2) * 1"
      by (rule mult_strict_left_mono) simp_all
    then have "exp (1 / 2) * (1 - exp (- y)) < exp (1 / 2)"
      by (simp only: mult_1_right)
    with gauss_int_upper [OF that] have "gauss_int y < exp (1 / 2)"
      by (rule le_less_trans)
    with gauss_int_nonneg [OF that] show ?thesis by blast
  qed
  show ?thesis
  proof (cases "0 \<le> x")
    case True
    with pos [of x] show ?thesis by simp
  next
    case False
    then have "0 \<le> - x" by simp
    from pos [OF this] show ?thesis by (simp add: gauss_int_minus)
  qed
qed

lemma exp_half_le_sqrt_2pi: "exp (1 / 2) \<le> sqrt (2 * pi)"
proof (rule real_le_rsqrt)
  have "(exp (1 / 2 :: real))\<^sup>2 = exp 1"
    by (simp add: power2_eq_square exp_add [symmetric])
  also have "\<dots> \<le> 3" by (rule exp_le)
  also have "\<dots> \<le> 2 * pi" using pi_ge_two by simp
  finally show "(exp (1 / 2 :: real))\<^sup>2 \<le> 2 * pi" .
qed

lemma norm_cdf_bounds: "- (1 / 2) < norm_cdf x \<and> norm_cdf x < 3 / 2"
proof -
  have "\<bar>gauss_int x\<bar> < sqrt (2 * pi)"
    using gauss_int_abs_less [of x] exp_half_le_sqrt_2pi by (rule less_le_trans)
  then have "\<bar>gauss_int x\<bar> / sqrt (2 * pi) < 1" by simp
  then have "\<bar>gauss_int x / sqrt (2 * pi)\<bar> < 1" by simp
  moreover define u where "u = gauss_int x / sqrt (2 * pi)"
  ultimately have "\<bar>u\<bar> < 1" by simp
  then have "- (1 / 2) < 1 / 2 + u \<and> 1 / 2 + u < 3 / 2" by linarith
  then show ?thesis by (simp only: norm_cdf_def u_def)
qed

section \<open>The pricer and the formulas of the specification\<close>

lemma option_price_call:
  "K \<noteq> 0 \<Longrightarrow> option_price S K T r sigma q ''c'' = Inr (bsm_call S K T r sigma q)"
  by (simp add: option_price_def bsm_call_def bsm_d1_def bsm_d2_def Let_def)


lemma target_fn_call:
  "K \<noteq> 0 \<Longrightarrow>
     target_fn S K T r q market_price ''c'' sigma = Inr (bsm_call S K T r sigma q - market_price)"
  by (simp add: target_fn_def option_price_call)

text \<open>
  The derivative of the call price with respect to the volatility (the vega) is
  \<open>K * exp (- r T) * \<phi> d2 * sqrt T\<close>, with \<open>\<phi>\<close> the standard normal density: the two terms
  that the derivatives of \<open>d1\<close> and \<open>d2\<close> share cancel, since
  \<open>S * exp (- q T) * \<phi> d1 = K * exp (- r T) * \<phi> d2\<close>.
\<close>

lemma d1_split_algebra:
  fixes L c s x :: real
  assumes "s \<noteq> 0" and "x \<noteq> 0"
  shows "(L + (c + x\<^sup>2 / 2) * (s * s)) / (x * s) = (L + c * (s * s)) / s * inverse x + s / 2 * x"
  using assms by (simp add: field_simps power2_eq_square)

lemma d1_deriv_algebra:
  fixes a h x :: real
  assumes "x \<noteq> 0"
  shows "a * (- (inverse x ^ Suc (Suc 0))) + h * 1 = 2 * h - (a * inverse x + h * x) / x"
  using assms by (simp add: field_simps)

lemma bsm_d1_split:
  assumes "0 < T" and "sigma \<noteq> 0"
  shows "bsm_d1 S K T r sigma q = (ln (S / K) + (r - q) * T) / sqrt T * inverse sigma + sqrt T / 2 * sigma"
proof -
  from assms(1) have s: "sqrt T \<noteq> 0" and T: "T = sqrt T * sqrt T" by simp_all
  have "bsm_d1 S K T r sigma q
          = (ln (S / K) + (r - q + sigma\<^sup>2 / 2) * (sqrt T * sqrt T)) / (sigma * sqrt T)"
    unfolding bsm_d1_def using T by simp
  also have "\<dots> = (ln (S / K) + (r - q) * (sqrt T * sqrt T)) / sqrt T * inverse sigma
                     + sqrt T / 2 * sigma"
    using s assms(2) by (rule d1_split_algebra)
  finally show ?thesis using T by simp
qed

lemma DERIV_bsm_d1:
  assumes "0 < T" and "sigma \<noteq> 0"
  shows "DERIV (\<lambda>x. bsm_d1 S K T r x q) sigma :> sqrt T - bsm_d1 S K T r sigma q / sigma"
proof -
  let ?a = "(ln (S / K) + (r - q) * T) / sqrt T"
  let ?g = "\<lambda>x. ?a * inverse x + sqrt T / 2 * x"
  have "DERIV ?g sigma :> ?a * (- (inverse sigma ^ Suc (Suc 0))) + sqrt T / 2 * 1"
    by (intro DERIV_add DERIV_cmult DERIV_inverse DERIV_ident assms(2))
  also have "?a * (- (inverse sigma ^ Suc (Suc 0))) + sqrt T / 2 * 1
                   = 2 * (sqrt T / 2) - ?g sigma / sigma"
    using assms(2) by (rule d1_deriv_algebra)
  also have "\<dots> = sqrt T - bsm_d1 S K T r sigma q / sigma"
    by (simp add: bsm_d1_split [OF assms])
  finally have g: "DERIV ?g sigma :> sqrt T - bsm_d1 S K T r sigma q / sigma" .
  show ?thesis
  proof (rule has_field_derivative_transform_within_open [OF g, of "- {0}"])
    show "open (- {0::real})" by (intro open_Compl closed_singleton)
    show "sigma \<in> - {0}" using assms(2) by simp
    show "?g x = bsm_d1 S K T r x q" if "x \<in> - {0}" for x
      using that by (simp add: bsm_d1_split [OF assms(1)])
  qed
qed

lemma DERIV_bsm_d2:
  assumes "0 < T" and "sigma \<noteq> 0"
  shows "DERIV (\<lambda>x. bsm_d2 S K T r x q) sigma :> - (bsm_d1 S K T r sigma q / sigma)"
proof -
  have "DERIV (\<lambda>x. bsm_d1 S K T r x q - x * sqrt T) sigma
          :> (sqrt T - bsm_d1 S K T r sigma q / sigma) - 1 * sqrt T"
    by (intro DERIV_diff DERIV_bsm_d1 assms DERIV_cmult_right DERIV_ident)
  then show ?thesis by (simp add: bsm_d2_def [abs_def])
qed

lemma d1_d2_squares_algebra:
  fixes a s x :: real
  assumes "s \<noteq> 0" and "x \<noteq> 0"
  shows "((a / s * inverse x + s / 2 * x)\<^sup>2 - (a / s * inverse x + s / 2 * x - x * s)\<^sup>2) / 2 = a"
  using assms by (simp add: field_simps power2_eq_square)

lemma bsm_d1_d2_squares:
  assumes "0 < T" and "sigma \<noteq> 0"
  shows "((bsm_d1 S K T r sigma q)\<^sup>2 - (bsm_d2 S K T r sigma q)\<^sup>2) / 2
           = ln (S / K) + (r - q) * T"
proof -
  from assms(1) have s: "sqrt T \<noteq> 0" by simp
  show ?thesis
    unfolding bsm_d2_def bsm_d1_split [OF assms]
    using s assms(2) by (rule d1_d2_squares_algebra)
qed

lemma exponent_algebra:
  fixes x y L a b :: real
  assumes "(x - y) / 2 = L + (b - a)"
  shows "L + (- a + - x / 2) = - b + - y / 2"
  using assms by argo

lemma bsm_pdf_balance:
  assumes "0 < S" and "0 < K" and "0 < T" and "sigma \<noteq> 0"
  shows "S * exp (- (q * T)) * norm_pdf (bsm_d1 S K T r sigma q)
           = K * exp (- (r * T)) * norm_pdf (bsm_d2 S K T r sigma q)"
proof -
  let ?d1 = "bsm_d1 S K T r sigma q" and ?d2 = "bsm_d2 S K T r sigma q"
  from assms(1,2) have "0 < S / K" by simp
  then have "exp (ln (S / K)) = S / K" by simp
  with assms(2) have S: "S = K * exp (ln (S / K))" by simp
  have "(?d1\<^sup>2 - ?d2\<^sup>2) / 2 = ln (S / K) + (r * T - q * T)"
    using bsm_d1_d2_squares [OF assms(3,4), of S K r q] by (simp only: left_diff_distrib)
  then have "ln (S / K) + (- (q * T) + - (?d1\<^sup>2) / 2) = - (r * T) + - (?d2\<^sup>2) / 2"
    by (rule exponent_algebra)
  then have "exp (ln (S / K) + (- (q * T) + - (?d1\<^sup>2) / 2)) = exp (- (r * T) + - (?d2\<^sup>2) / 2)"
    by (rule arg_cong)
  then have e: "exp (ln (S / K)) * (exp (- (q * T)) * exp (- (?d1\<^sup>2) / 2))
               = exp (- (r * T)) * exp (- (?d2\<^sup>2) / 2)"
    by (simp only: exp_add)
  have "S * exp (- (q * T)) * norm_pdf ?d1
          = K * (exp (ln (S / K)) * (exp (- (q * T)) * exp (- (?d1\<^sup>2) / 2))) / sqrt (2 * pi)"
    by (subst S) (simp add: norm_pdf_def)
  also have "\<dots> = K * (exp (- (r * T)) * exp (- (?d2\<^sup>2) / 2)) / sqrt (2 * pi)"
    by (simp only: e)
  also have "\<dots> = K * exp (- (r * T)) * norm_pdf ?d2"
    by (simp add: norm_pdf_def)
  finally show ?thesis .
qed

lemma vega_algebra:
  fixes A B p1 p2 s w :: real
  assumes "A * p1 = B * p2"
  shows "A * (p1 * (s - w)) - B * (p2 * (- w)) = B * p2 * s"
proof -
  have "A * (p1 * (s - w)) = (A * p1) * (s - w)" by simp
  also have "\<dots> = (B * p2) * (s - w)" by (simp only: assms)
  finally show ?thesis by (simp add: algebra_simps)
qed

lemma DERIV_bsm_call:
  assumes "0 < S" and "0 < K" and "0 < T" and "sigma \<noteq> 0"
  shows "DERIV (\<lambda>x. bsm_call S K T r x q) sigma
           :> K * exp (- (r * T)) * norm_pdf (bsm_d2 S K T r sigma q) * sqrt T"
proof -
  let ?d1 = "bsm_d1 S K T r sigma q" and ?d2 = "bsm_d2 S K T r sigma q"
  have "DERIV (\<lambda>x. S * exp (- (q * T)) * norm_cdf (bsm_d1 S K T r x q)
                   - K * exp (- (r * T)) * norm_cdf (bsm_d2 S K T r x q)) sigma
          :> S * exp (- (q * T)) * (norm_pdf ?d1 * (sqrt T - ?d1 / sigma))
             - K * exp (- (r * T)) * (norm_pdf ?d2 * (- (?d1 / sigma)))"
    by (intro DERIV_diff DERIV_cmult DERIV_chain2 [OF DERIV_norm_cdf]
          DERIV_bsm_d1 DERIV_bsm_d2 assms(3,4))
  also have "S * exp (- (q * T)) * (norm_pdf ?d1 * (sqrt T - ?d1 / sigma))
             - K * exp (- (r * T)) * (norm_pdf ?d2 * (- (?d1 / sigma)))
           = K * exp (- (r * T)) * norm_pdf ?d2 * sqrt T"
    by (rule vega_algebra) (rule bsm_pdf_balance [OF assms])
  finally show ?thesis by (simp only: bsm_call_def [abs_def])
qed

lemma bsm_call_strict_mono:
  assumes "0 < S" and "0 < K" and "0 < T" and "0 < sigma1" and "sigma1 < sigma2"
  shows "bsm_call S K T r sigma1 q < bsm_call S K T r sigma2 q"
proof (rule DERIV_pos_imp_increasing [of sigma1 sigma2 "\<lambda>x. bsm_call S K T r x q"])
  show "sigma1 < sigma2" by fact
next
  fix x assume "sigma1 \<le> x" and "x \<le> sigma2"
  with assms(4) have x: "x \<noteq> 0" by simp
  have "0 < K * exp (- (r * T)) * norm_pdf (bsm_d2 S K T r x q) * sqrt T"
    using assms(2,3) by (simp add: norm_pdf_pos)
  with DERIV_bsm_call [OF assms(1-3) x]
  show "\<exists>y. DERIV (\<lambda>x. bsm_call S K T r x q) x :> y \<and> 0 < y" by blast
qed

text \<open>Bounds on the call price that need no numerical evaluation.\<close>

lemma bsm_call_upper:
  assumes "0 < S" and "0 < K"
  shows "bsm_call S K T r sigma q < 3 / 2 * (S * exp (- (q * T))) + 1 / 2 * (K * exp (- (r * T)))"
proof -
  let ?A = "S * exp (- (q * T))" and ?B = "K * exp (- (r * T))"
  from assms have A: "0 < ?A" and B: "0 < ?B" by simp_all
  have "?A * norm_cdf (bsm_d1 S K T r sigma q) < ?A * (3 / 2)"
    using A norm_cdf_bounds by (intro mult_strict_left_mono) simp_all
  moreover have "?B * (- (1 / 2)) < ?B * norm_cdf (bsm_d2 S K T r sigma q)"
    using B norm_cdf_bounds by (intro mult_strict_left_mono) simp_all
  ultimately show ?thesis by (simp add: bsm_call_def)
qed


lemma call_target_negative:
  assumes "0 < S" and "0 < K" and "0 \<le> q * T" and "0 \<le> r * T" and "3 / 2 * S + 1 / 2 * K \<le> market_price"
  shows "bsm_call S K T r sigma q - market_price < 0"
proof -
  have "S * exp (- (q * T)) \<le> S * 1" and "K * exp (- (r * T)) \<le> K * 1"
    using assms(1-4) by (intro mult_left_mono; simp)+
  with bsm_call_upper [OF assms(1,2), of T r sigma q] assms(5) show ?thesis by simp
qed

section \<open>Properties of the specification's root finder\<close>




lemma brentq_spec_propagates:
  "f a = Inl e \<Longrightarrow> brentq_spec f a b xtol maxiter = Inl e"
  by (simp add: brentq_spec_def)

text \<open>
  The bisection keeps a bracket with a sign change, halves it at every iteration, and
  returns only when \<open>converged\<close> says so; with enough iterations it returns.
\<close>

lemma converged_SomeD:
  "converged xtol lo flo hi fhi = Some x \<Longrightarrow>
     x = lo \<and> (\<bar>flo\<bar> \<le> xtol \<or> hi - lo \<le> xtol) \<or> x = hi \<and> \<bar>fhi\<bar> \<le> xtol"
  by (auto simp: converged_def split: if_splits)

lemma converged_NoneD:
  "converged xtol lo flo hi fhi = None \<Longrightarrow> xtol < \<bar>flo\<bar> \<and> xtol < \<bar>fhi\<bar> \<and> xtol < hi - lo"
  by (auto simp: converged_def split: if_splits)

lemma converged_tol_nonneg:
  "converged xtol lo flo hi fhi = Some x \<Longrightarrow> lo \<le> hi \<Longrightarrow> 0 \<le> xtol"
  by (auto simp: converged_def split: if_splits)

lemma bisect_tol_nonneg:
  "bisect f xtol n lo flo hi fhi = Inr x \<Longrightarrow> lo \<le> hi \<Longrightarrow> 0 \<le> xtol"
proof (induction n arbitrary: lo flo hi fhi)
  case 0
  then show ?case
    by (auto split: option.splits dest: converged_tol_nonneg)
next
  case (Suc n)
  show ?case
  proof (cases "converged xtol lo flo hi fhi")
    case (Some y)
    from Some Suc.prems(2) show ?thesis by (rule converged_tol_nonneg)
  next
    case None
    let ?m = "(lo + hi) / 2"
    from Suc.prems(2) have m: "lo \<le> ?m" "?m \<le> hi" by simp_all
    from None Suc.prems(1) obtain fm where fm: "f ?m = Inr fm"
      by (cases "f ?m") auto
    show ?thesis
    proof (cases "(fm < 0) = (flo < 0)")
      case True
      with None fm Suc.prems(1) have "bisect f xtol n ?m fm hi fhi = Inr x" by simp
      then show ?thesis using m(2) by (rule Suc.IH)
    next
      case False
      with None fm Suc.prems(1) have "bisect f xtol n lo flo ?m fm = Inr x" by simp
      then show ?thesis using m(1) by (rule Suc.IH)
    qed
  qed
qed

lemma sign_kept_left:
  fixes flo fhi fm :: real
  assumes "flo * fhi \<le> 0" and "flo \<noteq> 0" and "(fm < 0) = (flo < 0)"
  shows "fm * fhi \<le> 0"
proof (cases "flo < 0")
  case True
  with assms(1) have "0 \<le> fhi" by (simp add: mult_le_0_iff)
  moreover from True assms(3) have "fm \<le> 0" by simp
  ultimately show ?thesis by (simp add: mult_le_0_iff)
next
  case False
  with assms(2) have "0 < flo" by simp
  with assms(1) have "fhi \<le> 0" by (simp add: mult_le_0_iff)
  moreover from False assms(3) have "0 \<le> fm" by simp
  ultimately show ?thesis by (simp add: mult_le_0_iff)
qed

lemma sign_kept_right:
  fixes flo fm :: real
  assumes "(fm < 0) \<noteq> (flo < 0)"
  shows "flo * fm \<le> 0"
  using assms by (cases "flo < 0") (auto simp: mult_le_0_iff)

lemma bisect_found:
  assumes "bisect f xtol n lo flo hi fhi = Inr x" and "lo \<le> hi" and "0 \<le> xtol"
    and "f lo = Inr flo" and "f hi = Inr fhi" and "flo * fhi \<le> 0"
  shows "found_by_bracketing f lo hi xtol n x"
  using assms
proof (induction n arbitrary: lo flo hi fhi)
  case 0
  from "0.prems"(1) obtain y where y: "converged xtol lo flo hi fhi = Some y" and "y = x"
    by (auto split: option.splits)
  then have c: "converged xtol lo flo hi fhi = Some x" by simp
  show ?case
    unfolding found_by_bracketing_def
    using converged_SomeD [OF c] "0.prems"(2,4,5,6)
    by (intro exI [of _ 0] exI [of _ lo] exI [of _ hi] exI [of _ flo] exI [of _ fhi]) simp
next
  case (Suc n)
  show ?case
  proof (cases "converged xtol lo flo hi fhi")
    case (Some y)
    with Suc.prems(1) have c: "converged xtol lo flo hi fhi = Some x" by simp
    show ?thesis
      unfolding found_by_bracketing_def
      using converged_SomeD [OF c] Suc.prems(2,4,5,6)
      by (intro exI [of _ 0] exI [of _ lo] exI [of _ hi] exI [of _ flo] exI [of _ fhi]) simp
  next
    case None
    let ?m = "(lo + hi) / 2"
    from Suc.prems(2) have m: "lo \<le> ?m" "?m \<le> hi" by simp_all
    from None Suc.prems(1) obtain fm where fm: "f ?m = Inr fm"
      by (cases "f ?m") auto
    from converged_NoneD [OF None] Suc.prems(3) have flo0: "flo \<noteq> 0" by auto
    show ?thesis
    proof (cases "(fm < 0) = (flo < 0)")
      case True
      with None fm Suc.prems(1) have b: "bisect f xtol n ?m fm hi fhi = Inr x" by simp
      have "fm * fhi \<le> 0" using Suc.prems(6) flo0 True by (rule sign_kept_left)
      from Suc.IH [OF b m(2) Suc.prems(3) fm Suc.prems(5) this]
      obtain k lo' hi' flo' fhi' where r:
        "k \<le> n" "?m \<le> lo'" "lo' \<le> hi'" "hi' \<le> hi" "hi' - lo' = (hi - ?m) / 2 ^ k"
        "f lo' = Inr flo'" "f hi' = Inr fhi'" "flo' * fhi' \<le> 0"
        "x = lo' \<and> (\<bar>flo'\<bar> \<le> xtol \<or> hi' - lo' \<le> xtol) \<or> x = hi' \<and> \<bar>fhi'\<bar> \<le> xtol"
        unfolding found_by_bracketing_def by blast
      have w: "hi' - lo' = (hi - lo) / 2 ^ Suc k"
        using r(5) by (simp add: field_simps)
      from r(2) m(1) have "lo \<le> lo'" by linarith
      with r w show ?thesis
        unfolding found_by_bracketing_def
        by (intro exI [of _ "Suc k"] exI [of _ lo'] exI [of _ hi'] exI [of _ flo'] exI [of _ fhi'])
          simp
    next
      case False
      with None fm Suc.prems(1) have b: "bisect f xtol n lo flo ?m fm = Inr x" by simp
      have "flo * fm \<le> 0" using False by (rule sign_kept_right)
      from Suc.IH [OF b m(1) Suc.prems(3) Suc.prems(4) fm this]
      obtain k lo' hi' flo' fhi' where r:
        "k \<le> n" "lo \<le> lo'" "lo' \<le> hi'" "hi' \<le> ?m" "hi' - lo' = (?m - lo) / 2 ^ k"
        "f lo' = Inr flo'" "f hi' = Inr fhi'" "flo' * fhi' \<le> 0"
        "x = lo' \<and> (\<bar>flo'\<bar> \<le> xtol \<or> hi' - lo' \<le> xtol) \<or> x = hi' \<and> \<bar>fhi'\<bar> \<le> xtol"
        unfolding found_by_bracketing_def by blast
      have w: "hi' - lo' = (hi - lo) / 2 ^ Suc k"
        using r(5) by (simp add: field_simps)
      from r(4) m(2) have "hi' \<le> hi" by linarith
      with r w show ?thesis
        unfolding found_by_bracketing_def
        by (intro exI [of _ "Suc k"] exI [of _ lo'] exI [of _ hi'] exI [of _ flo'] exI [of _ fhi'])
          simp
    qed
  qed
qed

lemma brentq_spec_found:
  assumes "brentq_spec f a b xtol maxiter = Inr x" and "a \<le> b"
  shows "found_by_bracketing f a b xtol (nat maxiter) x"
proof -
  from assms(1) obtain fa where fa: "f a = Inr fa"
    by (cases "f a") (auto simp: brentq_spec_def)
  from assms(1) fa obtain fb where fb: "f b = Inr fb"
    by (cases "f b") (auto simp: brentq_spec_def)
  from assms(1) fa fb have s: "fa * fb \<le> 0"
    by (auto simp: brentq_spec_def split: if_splits)
  from assms(1) fa fb s have b: "bisect f xtol (nat maxiter) a fa b fb = Inr x"
    by (auto simp: brentq_spec_def split: if_splits)
  from b assms(2) have "0 \<le> xtol" by (rule bisect_tol_nonneg)
  with b assms(2) show ?thesis using fa fb s by (rule bisect_found)
qed

lemma brentq_spec_no_sign_change:
  "f a = Inr fa \<Longrightarrow> f b = Inr fb \<Longrightarrow> 0 < fa * fb \<Longrightarrow> brentq_spec f a b xtol maxiter = Inl ValueError"
  by (simp add: brentq_spec_def)

lemma bisect_enough_fuel:
  assumes "\<And>x. \<exists>y. f x = Inr y" and "(hi - lo) / 2 ^ n \<le> xtol"
  shows "\<exists>x. bisect f xtol n lo flo hi fhi = Inr x"
  using assms(2)
proof (induction n arbitrary: lo flo hi fhi)
  case 0
  then have "converged xtol lo flo hi fhi \<noteq> None"
    by (auto simp: converged_def)
  then show ?case by auto
next
  case (Suc n)
  show ?case
  proof (cases "converged xtol lo flo hi fhi")
    case (Some y)
    then show ?thesis by simp
  next
    case None
    let ?m = "(lo + hi) / 2"
    from assms(1) obtain fm where fm: "f ?m = Inr fm" by blast
    have w1: "(hi - ?m) / 2 ^ n \<le> xtol" and w2: "(?m - lo) / 2 ^ n \<le> xtol"
      using Suc.prems by (simp_all add: field_simps)
    from Suc.IH [OF w1] Suc.IH [OF w2] None fm show ?thesis
      by (cases "(fm < 0) = (flo < 0)") simp_all
  qed
qed

lemma brentq_spec_enough_fuel:
  assumes "\<And>x. \<exists>y. f x = Inr y" and "f a = Inr fa" and "f b = Inr fb" and "fa * fb \<le> 0"
    and "(b - a) / 2 ^ nat maxiter \<le> xtol"
  shows "\<exists>x. brentq_spec f a b xtol maxiter = Inr x"
proof -
  from assms(4) have "\<not> 0 < fa * fb" by simp
  with assms(2,3) have "brentq_spec f a b xtol maxiter = bisect f xtol (nat maxiter) a fa b fb"
    by (simp add: brentq_spec_def)
  with bisect_enough_fuel [OF assms(1) assms(5), where flo = fa and fhi = fb] show ?thesis by simp
qed

lemma implied_volatility_round_trip_returns:
  assumes "0 < S" and "0 < K" and "0 < T"
    and "1 / 10 ^ 6 < sigma" and "sigma < 200"
    and "0 < bsm_call S K T r sigma q"
    and "(200 - 1 / 10 ^ 6) / 2 ^ nat max_iter \<le> tol"
  shows "\<exists>x. implied_volatility brentq_spec S K T r q (bsm_call S K T r sigma q) ''c'' tol max_iter
           = Inr (Num x)"
proof -
  let ?mp = "bsm_call S K T r sigma q"
  let ?f = "target_fn S K T r q ?mp ''c''"
  from assms(2) have K: "K \<noteq> 0" by simp
  have tot: "\<exists>y. ?f x = Inr y" for x by (simp add: target_fn_call [OF K])
  have lo: "bsm_call S K T r (1 / 10 ^ 6) q < ?mp"
    by (rule bsm_call_strict_mono [OF assms(1-3) _ assms(4)]) simp
  have hi: "?mp < bsm_call S K T r 200 q"
    using assms(4) by (intro bsm_call_strict_mono [OF assms(1-3) _ assms(5)]) simp
  from lo hi have "(bsm_call S K T r (1 / 10 ^ 6) q - ?mp) * (bsm_call S K T r 200 q - ?mp) \<le> 0"
    by (simp add: mult_le_0_iff)
  from brentq_spec_enough_fuel [where f = ?f, OF tot target_fn_call [OF K] target_fn_call [OF K] this assms(7)]
  obtain x where "brentq_spec ?f (1 / 10 ^ 6) 200 tol max_iter = Inr x" by blast
  with assms(3,6) show ?thesis by (simp add: implied_volatility_def)
qed

section \<open>Recovering the volatility of a model price\<close>

text \<open>
  When the market price is the model price at some volatility \<open>sigma\<close> inside the bracket, the
  root finder of the specification returns, and what it returns is an end of a bracket that holds
  \<open>sigma\<close> (the call price is strictly increasing) and is narrower than the tolerance, or a
  point where the price differs from the market price by at most the tolerance. If the price moves
  by more than the tolerance over \<open>delta\<close> on each side of \<open>sigma\<close>, the result is within
  \<open>delta\<close> of \<open>sigma\<close>.
\<close>

lemma implied_volatility_NumD:
  assumes "implied_volatility brentq S K T r q market_price option_type tol max_iter = Inr (Num x)"
  shows "brentq (target_fn S K T r q market_price option_type) (1 / 10 ^ 6) 200 tol max_iter = Inr x"
  using assms by (auto simp: implied_volatility_def split: if_splits sum.splits exn.splits)

lemma bsm_call_mono:
  assumes "0 < S" and "0 < K" and "0 < T" and "0 < u" and "u \<le> v"
  shows "bsm_call S K T r u q \<le> bsm_call S K T r v q"
proof (cases "u = v")
  case True
  then show ?thesis by simp
next
  case False
  with assms(5) have "u < v" by simp
  from bsm_call_strict_mono [OF assms(1-4) this, where r = r and q = q] show ?thesis by simp
qed

lemma bracket_holds_root:
  assumes "0 < S" and "0 < K" and "0 < T" and "0 < lo" and "lo \<le> hi" and "0 < sigma"
    and "(bsm_call S K T r lo q - bsm_call S K T r sigma q)
           * (bsm_call S K T r hi q - bsm_call S K T r sigma q) \<le> 0"
  shows "lo \<le> sigma \<and> sigma \<le> hi"
proof (rule ccontr)
  assume "\<not> (lo \<le> sigma \<and> sigma \<le> hi)"
  then consider "sigma < lo" | "hi < sigma" by linarith
  then show False
  proof cases
    case 1
    from bsm_call_strict_mono [OF assms(1-3) assms(6) 1, where r = r and q = q]
    have a: "0 < bsm_call S K T r lo q - bsm_call S K T r sigma q" by simp
    from bsm_call_mono [OF assms(1-5), where r = r and q = q] a
    have "0 < bsm_call S K T r hi q - bsm_call S K T r sigma q" by simp
    with a have "0 < (bsm_call S K T r lo q - bsm_call S K T r sigma q)
           * (bsm_call S K T r hi q - bsm_call S K T r sigma q)" by (rule mult_pos_pos)
    with assms(7) show False by simp
  next
    case 2
    from assms(4,5) have "0 < hi" by simp
    from bsm_call_strict_mono [OF assms(1-3) this 2, where r = r and q = q]
    have a: "bsm_call S K T r hi q - bsm_call S K T r sigma q < 0" by simp
    from bsm_call_mono [OF assms(1-5), where r = r and q = q] a
    have "bsm_call S K T r lo q - bsm_call S K T r sigma q < 0" by simp
    from this a have "0 < (bsm_call S K T r lo q - bsm_call S K T r sigma q)
           * (bsm_call S K T r hi q - bsm_call S K T r sigma q)" by (rule mult_neg_neg)
    with assms(7) show False by simp
  qed
qed

lemma close_from_below:
  assumes "0 < S" and "0 < K" and "0 < T" and "0 < x" and "x \<le> sigma" and "0 < sigma - delta"
    and "\<bar>bsm_call S K T r x q - bsm_call S K T r sigma q\<bar> \<le> tol"
    and "tol < bsm_call S K T r sigma q - bsm_call S K T r (sigma - delta) q"
  shows "sigma - delta \<le> x"
proof (rule ccontr)
  assume "\<not> sigma - delta \<le> x"
  then have "x \<le> sigma - delta" by simp
  from bsm_call_mono [OF assms(1-4) this, where r = r and q = q]
  have "bsm_call S K T r x q \<le> bsm_call S K T r (sigma - delta) q" .
  with assms(7,8) show False by linarith
qed

lemma close_from_above:
  assumes "0 < S" and "0 < K" and "0 < T" and "0 < sigma" and "sigma \<le> x" and "0 < delta"
    and "\<bar>bsm_call S K T r x q - bsm_call S K T r sigma q\<bar> \<le> tol"
    and "tol < bsm_call S K T r (sigma + delta) q - bsm_call S K T r sigma q"
  shows "x \<le> sigma + delta"
proof (rule ccontr)
  assume "\<not> x \<le> sigma + delta"
  then have "sigma + delta \<le> x" by simp
  moreover from assms(4,6) have "0 < sigma + delta" by simp
  ultimately have "bsm_call S K T r (sigma + delta) q \<le> bsm_call S K T r x q"
    by (intro bsm_call_mono assms(1-3))
  with assms(7,8) show False by linarith
qed

lemma round_trip_within:
  assumes "0 < S" and "0 < K" and "0 < T"
    and "1 / 10 ^ 6 < sigma - delta" and "sigma + delta < 200" and "0 < delta" and "tol \<le> delta"
    and "0 < bsm_call S K T r sigma q"
    and "tol < bsm_call S K T r (sigma + delta) q - bsm_call S K T r sigma q"
    and "tol < bsm_call S K T r sigma q - bsm_call S K T r (sigma - delta) q"
    and "(200 - 1 / 10 ^ 6) / 2 ^ nat max_iter \<le> tol"
  shows "\<exists>x. implied_volatility brentq_spec S K T r q (bsm_call S K T r sigma q) ''c'' tol max_iter
                = Inr (Num x) \<and> \<bar>x - sigma\<bar> \<le> delta"
proof -
  let ?mp = "bsm_call S K T r sigma q"
  let ?f = "target_fn S K T r q ?mp ''c''"
  from assms(2) have K: "K \<noteq> 0" by simp
  from assms(4,6) have s1: "1 / 10 ^ 6 < sigma" by simp
  from assms(5,6) have s2: "sigma < 200" by simp
  have s0: "0 < sigma" and sd0: "0 < sigma - delta"
    using s1 assms(4) by (simp_all add: less_trans [of 0 "1 / 10 ^ 6"])
  from implied_volatility_round_trip_returns [OF assms(1-3) s1 s2 assms(8,11)]
  obtain x where x: "implied_volatility brentq_spec S K T r q ?mp ''c'' tol max_iter = Inr (Num x)"
    by blast
  from implied_volatility_NumD [OF x]
  have "brentq_spec ?f (1 / 10 ^ 6) 200 tol max_iter = Inr x" .
  then have "found_by_bracketing ?f (1 / 10 ^ 6) 200 tol (nat max_iter) x"
    by (rule brentq_spec_found) simp
  then obtain k lo hi flo fhi where r:
    "1 / 10 ^ 6 \<le> lo" "lo \<le> hi" "hi \<le> 200"
    "?f lo = Inr flo" "?f hi = Inr fhi" "flo * fhi \<le> 0"
    "x = lo \<and> (\<bar>flo\<bar> \<le> tol \<or> hi - lo \<le> tol) \<or> x = hi \<and> \<bar>fhi\<bar> \<le> tol"
    unfolding found_by_bracketing_def by blast
  from r(4) have flo: "flo = bsm_call S K T r lo q - ?mp" by (simp add: target_fn_call [OF K])
  from r(5) have fhi: "fhi = bsm_call S K T r hi q - ?mp" by (simp add: target_fn_call [OF K])
  from r(1) have lo0: "0 < lo" by (simp add: less_le_trans [of 0 "1 / 10 ^ 6"])
  with r(2) have hi0: "0 < hi" by simp
  from bracket_holds_root [OF assms(1-3) lo0 r(2) s0, where r = r and q = q] r(6)
  have b: "lo \<le> sigma" "sigma \<le> hi" unfolding flo fhi by blast+
  from r(7) consider "x = lo" "hi - lo \<le> tol" | "x = lo" "\<bar>flo\<bar> \<le> tol" | "x = hi" "\<bar>fhi\<bar> \<le> tol"
    by blast
  then have "\<bar>x - sigma\<bar> \<le> delta"
  proof cases
    case 1
    with b assms(7) show ?thesis by simp
  next
    case 2
    from close_from_below [OF assms(1-3) lo0 b(1) sd0 2(2) [unfolded flo] assms(10)] b(1) 2(1)
    show ?thesis by simp
  next
    case 3
    from close_from_above [OF assms(1-3) s0 b(2) assms(6) 3(2) [unfolded fhi] assms(9)] b(2) 3(1)
    show ?thesis by simp
  qed
  with x show ?thesis by blast
qed

text \<open>
  A lower bound of the vega on an interval of volatilities: the density at \<open>d2\<close> is at least
  \<open>1 / (3 * 3 ^ n)\<close> when \<open>d2\<^sup>2 \<le> 2 n\<close>, and \<open>exp (- r T) \<ge> 1 - r T\<close>.
\<close>

lemma d2_split_algebra:
  fixes a s x :: real
  shows "a / s * inverse x + s / 2 * x - x * s = a / (s * x) - s * x / 2"
proof -
  have "a / s * inverse x = a / (s * x)" by (simp add: divide_inverse)
  moreover have "s / 2 * x - x * s = - (s * x / 2)" by simp
  ultimately show ?thesis by linarith
qed

lemma bsm_d2_split:
  assumes "0 < T" and "sigma \<noteq> 0"
  shows "bsm_d2 S K T r sigma q
           = (ln (S / K) + (r - q) * T) / (sqrt T * sigma) - sqrt T * sigma / 2"
  by (simp only: bsm_d2_def bsm_d1_split [OF assms] d2_split_algebra)

lemma bsm_d2_square_bound:
  assumes "0 < T" and "0 < u" and "u \<le> x" and "x \<le> v"
    and "\<bar>ln (S / K) + (r - q) * T\<bar> \<le> A"
    and "0 < slo" and "slo \<le> sqrt T" and "sqrt T \<le> shi"
    and "(A / (slo * u) + shi * v / 2)\<^sup>2 \<le> M"
  shows "(bsm_d2 S K T r x q)\<^sup>2 \<le> M"
proof -
  let ?a = "ln (S / K) + (r - q) * T"
  from assms(2,3) have x: "0 < x" by simp
  from assms(1) have s: "0 < sqrt T" by simp
  have A: "0 \<le> A" using assms(5) by simp
  from x s have sx: "0 < sqrt T * x" by (rule mult_pos_pos [rotated])
  have "\<bar>?a / (sqrt T * x)\<bar> = \<bar>?a\<bar> / (sqrt T * x)"
    by (simp only: abs_divide abs_of_pos [OF sx])
  also have "\<dots> \<le> A / (slo * u)"
  proof (rule frac_le)
    show "0 \<le> A" by fact
    show "\<bar>?a\<bar> \<le> A" by fact
    show "0 < slo * u" using assms(2,6) by simp
    show "slo * u \<le> sqrt T * x" using assms(1,2,3,6,7) by (intro mult_mono) simp_all
  qed
  finally have t1: "\<bar>?a / (sqrt T * x)\<bar> \<le> A / (slo * u)" .
  have "sqrt T * x \<le> shi * v"
  proof (rule mult_mono)
    show "sqrt T \<le> shi" by fact
    show "x \<le> v" by fact
    show "0 \<le> shi" using s assms(8) by linarith
    show "0 \<le> x" using x by simp
  qed
  moreover have "\<bar>sqrt T * x / 2\<bar> = sqrt T * x / 2"
    using sx by simp
  ultimately have t2: "\<bar>sqrt T * x / 2\<bar> \<le> shi * v / 2"
    by simp
  have "\<bar>bsm_d2 S K T r x q\<bar> \<le> \<bar>?a / (sqrt T * x)\<bar> + \<bar>sqrt T * x / 2\<bar>"
    unfolding bsm_d2_split [OF assms(1) x [THEN less_imp_neq, symmetric]] by (rule abs_triangle_ineq4)
  also have "\<dots> \<le> A / (slo * u) + shi * v / 2"
    using t1 t2 by (rule add_mono)
  finally have "\<bar>bsm_d2 S K T r x q\<bar> \<le> A / (slo * u) + shi * v / 2" .
  then have "\<bar>bsm_d2 S K T r x q\<bar>\<^sup>2 \<le> (A / (slo * u) + shi * v / 2)\<^sup>2"
    by (intro power_mono) simp_all
  with assms(9) show ?thesis by simp
qed

lemma exp_nat_le: "exp (real n) \<le> 3 ^ n"
proof -
  have "exp (real n) = exp (real n * 1)" by simp
  also have "\<dots> = exp 1 ^ n" by (rule exp_of_nat_mult)
  also have "\<dots> \<le> 3 ^ n" by (intro power_mono exp_le) simp
  finally show ?thesis .
qed

lemma sqrt_2pi_le_3: "sqrt (2 * pi) \<le> 3"
proof (rule real_le_lsqrt)
  show "2 * pi \<le> 3\<^sup>2" using pi_less_4 by simp
qed simp

lemma norm_pdf_lower:
  assumes "d\<^sup>2 \<le> 2 * real n"
  shows "1 / (3 * 3 ^ n) \<le> norm_pdf d"
proof -
  from assms have "- real n \<le> - (d\<^sup>2) / 2" by simp
  then have e1: "exp (- real n) \<le> exp (- (d\<^sup>2) / 2)" by (simp only: exp_le_cancel_iff)
  have e2: "1 / 3 ^ n \<le> exp (- real n)"
    unfolding exp_minus' using exp_nat_le [of n] by (intro divide_left_mono) simp_all
  from e2 e1 have e: "1 / 3 ^ n \<le> exp (- (d\<^sup>2) / 2)" by (rule order_trans)
  have "1 / 3 ^ n / 3 \<le> exp (- (d\<^sup>2) / 2) / sqrt (2 * pi)"
    using e sqrt_2pi_le_3 by (intro frac_le) simp_all
  moreover have "1 / 3 ^ n / 3 = 1 / (3 * 3 ^ n :: real)" by simp
  ultimately show ?thesis by (simp only: norm_pdf_def)
qed

lemma call_gap_from_vega:
  assumes "0 < S" and "0 < K" and "0 < T" and "0 < u" and "u \<le> v"
    and "\<And>x. u \<le> x \<Longrightarrow> x \<le> v \<Longrightarrow>
           m \<le> K * exp (- (r * T)) * norm_pdf (bsm_d2 S K T r x q) * sqrt T"
  shows "m * (v - u) \<le> bsm_call S K T r v q - bsm_call S K T r u q"
proof -
  let ?g = "\<lambda>x. bsm_call S K T r x q - m * x"
  have "?g u \<le> ?g v"
  proof (rule DERIV_nonneg_imp_nondecreasing [of u v ?g])
    show "u \<le> v" by fact
  next
    fix x assume x: "u \<le> x" "x \<le> v"
    with assms(4) have "x \<noteq> 0" by simp
    have "DERIV ?g x :> K * exp (- (r * T)) * norm_pdf (bsm_d2 S K T r x q) * sqrt T - m * 1"
      by (intro DERIV_diff DERIV_bsm_call assms(1-3) \<open>x \<noteq> 0\<close> DERIV_cmult DERIV_ident)
    moreover have "0 \<le> K * exp (- (r * T)) * norm_pdf (bsm_d2 S K T r x q) * sqrt T - m * 1"
      using assms(6) [OF x] by simp
    ultimately show "\<exists>y. DERIV ?g x :> y \<and> 0 \<le> y" by blast
  qed
  then show ?thesis by (simp add: algebra_simps)
qed

lemma call_gap:
  assumes "0 < S" and "0 < K" and "0 < T" and "0 < u" and "u \<le> v"
    and "\<bar>ln (S / K) + (r - q) * T\<bar> \<le> A"
    and "0 < slo" and "slo \<le> sqrt T" and "sqrt T \<le> shi"
    and "(A / (slo * u) + shi * v / 2)\<^sup>2 \<le> 2 * real n"
    and "0 \<le> 1 - r * T"
  shows "K * (1 - r * T) * slo / (3 * 3 ^ n) * (v - u)
           \<le> bsm_call S K T r v q - bsm_call S K T r u q"
proof (rule call_gap_from_vega [OF assms(1-5)])
  fix x assume x: "u \<le> x" "x \<le> v"
  have d: "(bsm_d2 S K T r x q)\<^sup>2 \<le> 2 * real n"
    by (rule bsm_d2_square_bound [OF assms(3,4) x assms(6-10)])
  have e: "1 - r * T \<le> exp (- (r * T))"
    using exp_ge_add_one_self [of "- (r * T)"] by simp
  have p: "0 \<le> norm_pdf (bsm_d2 S K T r x q)" by (rule norm_pdf_pos [THEN less_imp_le])
  have s: "0 \<le> sqrt T" using assms(3) by simp
  have ab: "K * (1 - r * T) \<le> K * exp (- (r * T))"
    using e assms(2) by (simp only: mult_le_cancel_left_pos)
  have b0: "0 \<le> K * exp (- (r * T))" using assms(2) by simp
  have c0: "(0::real) \<le> 1 / (3 * 3 ^ n)" by simp
  from ab norm_pdf_lower [OF d] b0 c0
  have abcd: "K * (1 - r * T) * (1 / (3 * 3 ^ n))
          \<le> K * exp (- (r * T)) * norm_pdf (bsm_d2 S K T r x q)"
    by (rule mult_mono)
  have bd0: "0 \<le> K * exp (- (r * T)) * norm_pdf (bsm_d2 S K T r x q)"
    using b0 p by (rule mult_nonneg_nonneg)
  have s0: "0 \<le> slo" using assms(7) by simp
  from abcd assms(8) bd0 s0
  have "K * (1 - r * T) * (1 / (3 * 3 ^ n)) * slo
          \<le> K * exp (- (r * T)) * norm_pdf (bsm_d2 S K T r x q) * sqrt T"
    by (rule mult_mono)
  moreover have "K * (1 - r * T) * (1 / (3 * 3 ^ n)) * slo = K * (1 - r * T) * slo / (3 * 3 ^ n)"
    by simp
  ultimately show "K * (1 - r * T) * slo / (3 * 3 ^ n)
          \<le> K * exp (- (r * T)) * norm_pdf (bsm_d2 S K T r x q) * sqrt T"
    by (simp only:)
qed

text \<open>The round trip from bounds on the quantities that enter the vega.\<close>

lemma bsm_d1_minus_d2: "bsm_d1 S K T r sigma q - bsm_d2 S K T r sigma q = sigma * sqrt T"
  by (simp add: bsm_d2_def)

lemma bsm_d2_nonneg:
  assumes "0 < T" and "0 < sigma" and "T * sigma\<^sup>2 / 2 \<le> ln (S / K) + (r - q) * T"
  shows "0 \<le> bsm_d2 S K T r sigma q"
proof -
  let ?a = "ln (S / K) + (r - q) * T"
  from assms(1,2) have p: "0 < sqrt T * sigma" by simp
  have "sqrt T * sigma / 2 * (sqrt T * sigma) = T * sigma\<^sup>2 / 2"
    using assms(1) by (simp add: power2_eq_square)
  with assms(3) have "sqrt T * sigma / 2 * (sqrt T * sigma) \<le> ?a" by simp
  then have "sqrt T * sigma / 2 \<le> ?a / (sqrt T * sigma)"
    using p by (simp only: pos_le_divide_eq)
  then show ?thesis
    using assms(2) by (simp add: bsm_d2_split [OF assms(1)])
qed

lemma call_pos_in_the_money:
  assumes "0 < S" and "0 < K" and "0 < T" and "0 < sigma"
    and "K * exp (- (r * T)) \<le> S * exp (- (q * T))"
    and "0 \<le> bsm_d2 S K T r sigma q"
  shows "0 < bsm_call S K T r sigma q"
proof -
  let ?d1 = "bsm_d1 S K T r sigma q" and ?d2 = "bsm_d2 S K T r sigma q"
  from assms(3,4) have "0 < sigma * sqrt T" by simp
  with bsm_d1_minus_d2 [of S K T r sigma q] have lt: "?d2 < ?d1" by simp
  then have c: "norm_cdf ?d2 < norm_cdf ?d1" by (rule norm_cdf_strict_mono)
  have "norm_cdf 0 \<le> norm_cdf ?d2"
    using assms(6) norm_cdf_strict_mono [of 0 ?d2] by (cases "?d2 = 0") simp_all
  then have p2: "0 < norm_cdf ?d2" by (simp add: norm_cdf_0)
  with c have p1: "0 \<le> norm_cdf ?d1" by simp
  have "K * exp (- (r * T)) * norm_cdf ?d2 < K * exp (- (r * T)) * norm_cdf ?d1"
    using assms(2) c by simp
  also have "\<dots> \<le> S * exp (- (q * T)) * norm_cdf ?d1"
    using assms(5) p1 by (rule mult_right_mono)
  finally show ?thesis by (simp add: bsm_call_def)
qed

lemma round_trip_case:
  assumes "0 < S" and "0 < K" and "0 < T"
    and "1 / 10 ^ 6 < sigma - delta" and "sigma + delta < 200" and "0 < delta" and "tol \<le> delta"
    and "0 < bsm_call S K T r sigma q"
    and "\<bar>ln (S / K) + (r - q) * T\<bar> \<le> A"
    and "0 < slo" and "slo \<le> sqrt T" and "sqrt T \<le> shi"
    and "(A / (slo * (sigma - delta)) + shi * sigma / 2)\<^sup>2 \<le> 2 * real n"
    and "(A / (slo * sigma) + shi * (sigma + delta) / 2)\<^sup>2 \<le> 2 * real n"
    and "0 \<le> 1 - r * T"
    and "tol < K * (1 - r * T) * slo / (3 * 3 ^ n) * delta"
    and "(200 - 1 / 10 ^ 6) / 2 ^ nat max_iter \<le> tol"
  shows "\<exists>x. implied_volatility brentq_spec S K T r q (bsm_call S K T r sigma q) ''c'' tol max_iter
                = Inr (Num x) \<and> \<bar>x - sigma\<bar> \<le> delta"
proof -
  have sd: "0 < sigma - delta" using assms(4) by (simp add: less_trans [of 0 "1 / 10 ^ 6"])
  with assms(6) have s: "0 < sigma" by simp
  have lo: "K * (1 - r * T) * slo / (3 * 3 ^ n) * (sigma - (sigma - delta))
              \<le> bsm_call S K T r sigma q - bsm_call S K T r (sigma - delta) q"
    using assms(6) by (intro call_gap [OF assms(1-3) sd _ assms(9-12) assms(13) assms(15)]) simp
  have hi: "K * (1 - r * T) * slo / (3 * 3 ^ n) * (sigma + delta - sigma)
              \<le> bsm_call S K T r (sigma + delta) q - bsm_call S K T r sigma q"
    using assms(6) by (intro call_gap [OF assms(1-3) s _ assms(9-12) assms(14) assms(15)]) simp
  from lo assms(16) have g1: "tol < bsm_call S K T r sigma q - bsm_call S K T r (sigma - delta) q"
    by simp
  from hi assms(16) have g2: "tol < bsm_call S K T r (sigma + delta) q - bsm_call S K T r sigma q"
    by simp
  show ?thesis
    by (rule round_trip_within [OF assms(1-8) g2 g1 assms(17)])
qed

lemma sqrt_half_bounds: "707 / 1000 \<le> sqrt (1 / 2)" "sqrt (1 / 2) \<le> 7072 / 10000"
proof -
  show "707 / 1000 \<le> sqrt (1 / 2)" by (rule real_le_rsqrt) (simp add: power2_eq_square)
  show "sqrt (1 / 2) \<le> 7072 / 10000" by (rule real_le_lsqrt) (simp_all add: power2_eq_square)
qed

lemma ln_5_4_bounds: "0 \<le> ln (5 / 4 :: real)" "ln (5 / 4 :: real) \<le> 224 / 1000"
proof -
  show "0 \<le> ln (5 / 4 :: real)" by simp
  have "(5 / 4 :: real) \<le> (1 + 7 / 1000) ^ 32" by (simp add: power2_eq_square eval_nat_numeral)
  also have "\<dots> \<le> exp (7 / 1000) ^ 32"
    by (intro power_mono exp_ge_add_one_self) simp
  also have "\<dots> = exp (real 32 * (7 / 1000))" by (simp only: exp_of_nat_mult)
  also have "\<dots> = exp (224 / 1000)" by simp
  finally have "ln (5 / 4 :: real) \<le> ln (exp (224 / 1000))"
    by (subst ln_le_cancel_iff) simp_all
  then show "ln (5 / 4 :: real) \<le> 224 / 1000" by simp
qed

text \<open>The round trips at half a year to expiration, strikes 80 and 100.\<close>

lemma round_trip_half_year:
  assumes "0 < K" and "0 < bsm_call 100 K (1 / 2) (4 / 100) sigma (1 / 100)"
    and "\<bar>ln (100 / K) + 3 / 200\<bar> \<le> A"
    and "1 / 10 \<le> sigma" and "sigma \<le> 1 / 2"
    and "(A / (707 / 1000 * (sigma - 1 / 10 ^ 4)) + 7072 / 10000 * sigma / 2)\<^sup>2 \<le> 12"
    and "(A / (707 / 1000 * sigma) + 7072 / 10000 * (sigma + 1 / 10 ^ 4) / 2)\<^sup>2 \<le> 12"
    and "80 \<le> K"
  shows "\<exists>x. implied_volatility brentq_spec 100 K (1 / 2) (4 / 100) (1 / 100)
               (bsm_call 100 K (1 / 2) (4 / 100) sigma (1 / 100)) ''c'' (1 / 10 ^ 6) 100
                = Inr (Num x) \<and> \<bar>x - sigma\<bar> \<le> 1 / 10 ^ 4"
proof (rule round_trip_case [where A = A and slo = "707 / 1000" and shi = "7072 / 10000" and n = 6])
  show "(0::real) < 100" "0 < K" "(0::real) < 1 / 2" by (simp_all add: assms(1))
  show "1 / 10 ^ 6 < sigma - 1 / 10 ^ 4" using assms(4) by simp
  show "sigma + 1 / 10 ^ 4 < 200" using assms(5) by simp
  show "(0::real) < 1 / 10 ^ 4" "(1 / 10 ^ 6 :: real) \<le> 1 / 10 ^ 4" by simp_all
  show "0 < bsm_call 100 K (1 / 2) (4 / 100) sigma (1 / 100)" by fact
  show "\<bar>ln (100 / K) + (4 / 100 - 1 / 100) * (1 / 2)\<bar> \<le> A" using assms(3) by simp
  show "(0::real) < 707 / 1000" by simp
  show "707 / 1000 \<le> sqrt (1 / 2)" "sqrt (1 / 2) \<le> 7072 / 10000" by (rule sqrt_half_bounds)+
  show "(A / (707 / 1000 * (sigma - 1 / 10 ^ 4)) + 7072 / 10000 * sigma / 2)\<^sup>2 \<le> 2 * real 6"
    using assms(6) by simp
  show "(A / (707 / 1000 * sigma) + 7072 / 10000 * (sigma + 1 / 10 ^ 4) / 2)\<^sup>2 \<le> 2 * real 6"
    using assms(7) by simp
  show "(0::real) \<le> 1 - 4 / 100 * (1 / 2)" by simp
  have "(1 / 10 ^ 6 :: real) < 80 * (1 - 4 / 100 * (1 / 2)) * (707 / 1000) / (3 * 3 ^ 6) * (1 / 10 ^ 4)"
    by simp
  also have "\<dots> \<le> K * (1 - 4 / 100 * (1 / 2)) * (707 / 1000) / (3 * 3 ^ 6) * (1 / 10 ^ 4)"
    using assms(8) by simp
  finally show "1 / 10 ^ 6 < K * (1 - 4 / 100 * (1 / 2)) * (707 / 1000) / (3 * 3 ^ 6) * (1 / 10 ^ 4)" .
  show "(200 - 1 / 10 ^ 6) / 2 ^ nat 100 \<le> (1 / 10 ^ 6 :: real)" by simp
qed

lemma call_pos_half_year:
  assumes "0 < K" and "K \<le> 100" and "1 / 400 \<le> ln (100 / K) + 3 / 200"
    and "1 / 10 \<le> sigma"
  shows "0 < bsm_call 100 K (1 / 2) (4 / 100) sigma (1 / 100)"
proof -
  have "K * exp (- (4 / 100 * (1 / 2))) \<le> 100 * exp (- (1 / 100 * (1 / 2)))"
    using assms(1,2) by (intro mult_mono) simp_all
  moreover have "0 \<le> bsm_d2 100 K (1 / 2) (4 / 100) (1 / 10) (1 / 100)"
    using assms(3) by (intro bsm_d2_nonneg) (simp_all add: power2_eq_square)
  ultimately have p: "0 < bsm_call 100 K (1 / 2) (4 / 100) (1 / 10) (1 / 100)"
    using assms(1) by (intro call_pos_in_the_money) simp_all
  have "bsm_call 100 K (1 / 2) (4 / 100) (1 / 10) (1 / 100)
          \<le> bsm_call 100 K (1 / 2) (4 / 100) sigma (1 / 100)"
    using assms(1,4) by (intro bsm_call_mono) simp_all
  with p show ?thesis by simp
qed

lemma round_trip_80:
  assumes "sigma = 1 / 10 \<or> sigma = 1 / 5 \<or> sigma = 1 / 2"
  shows "\<exists>x. implied_volatility brentq_spec 100 80 (1 / 2) (4 / 100) (1 / 100)
               (bsm_call 100 80 (1 / 2) (4 / 100) sigma (1 / 100)) ''c'' (1 / 10 ^ 6) 100
                = Inr (Num x) \<and> \<bar>x - sigma\<bar> \<le> 1 / 10 ^ 4"
proof (rule round_trip_half_year [where A = "239 / 1000"])
  show "(0::real) < 80" "(80::real) \<le> 80" by simp_all
  show "1 / 10 \<le> sigma" "sigma \<le> 1 / 2" using assms by auto
  show "0 < bsm_call 100 80 (1 / 2) (4 / 100) sigma (1 / 100)"
    using assms ln_5_4_bounds(1) by (intro call_pos_half_year) auto
  show "\<bar>ln (100 / 80) + 3 / 200\<bar> \<le> (239 / 1000 :: real)"
    using ln_5_4_bounds by simp
  show "(239 / 1000 / (707 / 1000 * (sigma - 1 / 10 ^ 4)) + 7072 / 10000 * sigma / 2)\<^sup>2 \<le> 12"
    using assms by (elim disjE; hypsubst) (simp_all add: power2_eq_square)
  show "(239 / 1000 / (707 / 1000 * sigma) + 7072 / 10000 * (sigma + 1 / 10 ^ 4) / 2)\<^sup>2 \<le> 12"
    using assms by (elim disjE; hypsubst) (simp_all add: power2_eq_square)
qed

lemma round_trip_100:
  assumes "sigma = 1 / 10 \<or> sigma = 1 / 5 \<or> sigma = 1 / 2"
  shows "\<exists>x. implied_volatility brentq_spec 100 100 (1 / 2) (4 / 100) (1 / 100)
               (bsm_call 100 100 (1 / 2) (4 / 100) sigma (1 / 100)) ''c'' (1 / 10 ^ 6) 100
                = Inr (Num x) \<and> \<bar>x - sigma\<bar> \<le> 1 / 10 ^ 4"
proof (rule round_trip_half_year [where A = "3 / 200"])
  show "(0::real) < 100" "(80::real) \<le> 100" by simp_all
  show "1 / 10 \<le> sigma" "sigma \<le> 1 / 2" using assms by auto
  show "0 < bsm_call 100 100 (1 / 2) (4 / 100) sigma (1 / 100)"
    using assms by (intro call_pos_half_year) auto
  show "\<bar>ln (100 / 100) + 3 / 200\<bar> \<le> (3 / 200 :: real)" by simp
  show "(3 / 200 / (707 / 1000 * (sigma - 1 / 10 ^ 4)) + 7072 / 10000 * sigma / 2)\<^sup>2 \<le> 12"
    using assms by (elim disjE; hypsubst) (simp_all add: power2_eq_square)
  show "(3 / 200 / (707 / 1000 * sigma) + 7072 / 10000 * (sigma + 1 / 10 ^ 4) / 2)\<^sup>2 \<le> 12"
    using assms by (elim disjE; hypsubst) (simp_all add: power2_eq_square)
qed

section \<open>Numerical enclosures\<close>

text \<open>
  The out-of-the-money price at strike 120 and volatility 0.1 (about 0.073) and the price of the
  at-the-money scenario need the values of the distribution function, of \<open>pi\<close>, of the
  exponential and of the logarithm to several digits. The alternating series of \<open>gauss_int\<close>
  and of the arc tangent are enclosed between consecutive partial sums, the exponential by its
  Taylor polynomial with the Lagrange remainder.
\<close>

lemma gauss_term_nonneg: "0 \<le> x \<Longrightarrow> 0 \<le> gauss_term x k"
  by (simp add: gauss_term_def)

lemma gauss_term_ratio_le_1:
  assumes "x\<^sup>2 \<le> 6"
  shows "x\<^sup>2 / (2 * real (Suc k) * real (2 * k + 3)) \<le> 1 / real (2 * k + 1)"
proof -
  have "6 * (2 * k + 1) \<le> 2 * Suc k * (2 * k + 3)" by (simp add: algebra_simps)
  then have "real (6 * (2 * k + 1)) \<le> real (2 * Suc k * (2 * k + 3))" by (simp only: of_nat_le_iff)
  then have n: "6 * real (2 * k + 1) \<le> 2 * real (Suc k) * real (2 * k + 3)"
    by (simp only: of_nat_mult of_nat_numeral)
  have "x\<^sup>2 * real (2 * k + 1) \<le> 6 * real (2 * k + 1)"
    using assms by (intro mult_right_mono) simp_all
  with n have "x\<^sup>2 * real (2 * k + 1) \<le> 1 * (2 * real (Suc k) * real (2 * k + 3))" by simp
  then show ?thesis
    by (subst frac_le_eq) (simp_all add: divide_le_0_iff del: of_nat_Suc of_nat_add of_nat_mult)
qed

lemma gauss_term_decreasing:
  assumes "0 \<le> x" and "x\<^sup>2 \<le> 6"
  shows "gauss_term x (Suc k) \<le> gauss_term x k"
proof -
  let ?c = "x ^ (2 * k + 1) / (2 ^ k * fact k)"
  have c: "0 \<le> ?c" using assms(1) by simp
  have num: "x ^ (2 * Suc k + 1) = x ^ (2 * k + 1) * x\<^sup>2"
    by (simp add: power2_eq_square)
  have den: "2 ^ Suc k * fact (Suc k) * real (2 * Suc k + 1)
               = (2 ^ k * fact k) * (2 * real (Suc k) * real (2 * k + 3))"
    by (simp add: algebra_simps)
  have "gauss_term x (Suc k) = ?c * (x\<^sup>2 / (2 * real (Suc k) * real (2 * k + 3)))"
    unfolding gauss_term_def num den by (rule times_divide_times_eq [symmetric])
  also have "\<dots> \<le> ?c * (1 / real (2 * k + 1))"
    using gauss_term_ratio_le_1 [OF assms(2)] c by (rule mult_left_mono)
  also have "\<dots> = gauss_term x k"
    by (simp add: gauss_term_def)
  finally show ?thesis .
qed

lemma gauss_term_tendsto_0:
  assumes "0 \<le> x"
  shows "gauss_term x \<longlonglongrightarrow> 0"
proof (rule tendsto_sandwich)
  show "eventually (\<lambda>k. 0 \<le> gauss_term x k) sequentially"
    using gauss_term_nonneg [OF assms] by simp
  have le: "gauss_term x k \<le> x * ((x\<^sup>2 / 2) ^ k / fact k)" for k
  proof -
    have "gauss_term x k = x * ((x\<^sup>2 / 2) ^ k / fact k) / real (2 * k + 1)"
      by (simp add: gauss_term_def power_divide power_mult [symmetric])
    also have "\<dots> \<le> x * ((x\<^sup>2 / 2) ^ k / fact k) / 1"
      using assms by (intro divide_left_mono) simp_all
    finally show ?thesis by simp
  qed
  then show "eventually (\<lambda>k. gauss_term x k \<le> x * ((x\<^sup>2 / 2) ^ k / fact k)) sequentially"
    by simp
  show "(\<lambda>k. 0 :: real) \<longlonglongrightarrow> 0" by simp
  have "summable (\<lambda>k. (x\<^sup>2 / 2) ^ k / fact k)"
    using summable_exp [of "x\<^sup>2 / 2"] by (simp add: field_simps)
  then have "(\<lambda>k. (x\<^sup>2 / 2) ^ k / fact k) \<longlonglongrightarrow> 0" by (rule summable_LIMSEQ_zero)
  then have "(\<lambda>k. x * ((x\<^sup>2 / 2) ^ k / fact k)) \<longlonglongrightarrow> x * 0" by (rule tendsto_mult_left)
  then show "(\<lambda>k. x * ((x\<^sup>2 / 2) ^ k / fact k)) \<longlonglongrightarrow> 0" by simp
qed

lemma gauss_int_term: "gauss_int_coeff n * x ^ n
    = (if even n then 0 else (- 1) ^ ((n - 1) div 2) * gauss_term x ((n - 1) div 2))"
proof (cases "even n")
  case True
  then show ?thesis by (simp add: gauss_int_coeff_def)
next
  case False
  then obtain k where k: "n = 2 * k + 1" by (elim oddE)
  then show ?thesis
    by (simp add: gauss_int_coeff_def gauss_coeff_def gauss_term_def)
qed

lemma gauss_int_alternating:
  assumes "0 \<le> x" and "x\<^sup>2 \<le> 6"
  shows "(\<lambda>k. (- 1) ^ k * gauss_term x k) sums gauss_int x"
proof -
  have "summable (\<lambda>k. (- 1) ^ k * gauss_term x k)"
    by (rule summable_Leibniz'(1) [OF gauss_term_tendsto_0 [OF assms(1)]
          gauss_term_nonneg [OF assms(1)] gauss_term_decreasing [OF assms]])
  then have s: "(\<lambda>k. (- 1) ^ k * gauss_term x k) sums (\<Sum>k. (- 1) ^ k * gauss_term x k)"
    by (rule summable_sums)
  from sums_if' [OF this]
  have "(\<lambda>n. gauss_int_coeff n * x ^ n) sums (\<Sum>k. (- 1) ^ k * gauss_term x k)"
    by (simp only: gauss_int_term)
  then have "gauss_int x = (\<Sum>k. (- 1) ^ k * gauss_term x k)"
    unfolding gauss_int_def by (rule sums_unique [symmetric])
  with s show ?thesis by simp
qed

lemma gauss_int_enclosure:
  assumes "0 \<le> x" and "x\<^sup>2 \<le> 6"
  shows "(\<Sum>i<2 * n. (- 1) ^ i * gauss_term x i) \<le> gauss_int x"
    and "gauss_int x \<le> (\<Sum>i<2 * n + 1. (- 1) ^ i * gauss_term x i)"
proof -
  have eq: "gauss_int x = (\<Sum>k. (- 1) ^ k * gauss_term x k)"
    using gauss_int_alternating [OF assms] by (simp add: sums_iff)
  show "(\<Sum>i<2 * n. (- 1) ^ i * gauss_term x i) \<le> gauss_int x"
    unfolding eq
    by (rule summable_Leibniz'(2) [OF gauss_term_tendsto_0 [OF assms(1)]
          gauss_term_nonneg [OF assms(1)] gauss_term_decreasing [OF assms]])
  show "gauss_int x \<le> (\<Sum>i<2 * n + 1. (- 1) ^ i * gauss_term x i)"
    unfolding eq
    by (rule summable_Leibniz'(4) [OF gauss_term_tendsto_0 [OF assms(1)]
          gauss_term_nonneg [OF assms(1)] gauss_term_decreasing [OF assms]])
qed

text \<open>\<open>pi\<close> from Machin's formula in Euler's form.\<close>

lemma arctan_term_decreasing:
  fixes x :: real
  assumes "0 \<le> x" and "x \<le> 1"
  shows "1 / real (Suc k * 2 + 1) * x ^ (Suc k * 2 + 1) \<le> 1 / real (k * 2 + 1) * x ^ (k * 2 + 1)"
proof (rule mult_mono)
  show "1 / real (Suc k * 2 + 1) \<le> 1 / real (k * 2 + 1)" by (rule frac_le) simp_all
  show "x ^ (Suc k * 2 + 1) \<le> x ^ (k * 2 + 1)" using assms by (intro power_decreasing) simp_all
  show "0 \<le> 1 / real (k * 2 + 1)" by simp
  show "0 \<le> x ^ (Suc k * 2 + 1)" using assms(1) by simp
qed

lemma arctan_enclosure:
  fixes x :: real
  assumes "0 \<le> x" and "x \<le> 1"
  shows "(\<Sum>i<2 * n. (- 1) ^ i * (1 / real (i * 2 + 1) * x ^ (i * 2 + 1))) \<le> arctan x"
    and "arctan x \<le> (\<Sum>i<2 * n + 1. (- 1) ^ i * (1 / real (i * 2 + 1) * x ^ (i * 2 + 1)))"
proof -
  from assms have a: "\<bar>x\<bar> \<le> 1" by simp
  have nonneg: "0 \<le> 1 / real (k * 2 + 1) * x ^ (k * 2 + 1)" for k
    using assms(1) by simp
  show "(\<Sum>i<2 * n. (- 1) ^ i * (1 / real (i * 2 + 1) * x ^ (i * 2 + 1))) \<le> arctan x"
    unfolding arctan_series [OF a]
    by (rule summable_Leibniz'(2) [OF zeroseq_arctan_series [OF a] nonneg
          arctan_term_decreasing [OF assms]])
  show "arctan x \<le> (\<Sum>i<2 * n + 1. (- 1) ^ i * (1 / real (i * 2 + 1) * x ^ (i * 2 + 1)))"
    unfolding arctan_series [OF a]
    by (rule summable_Leibniz'(4) [OF zeroseq_arctan_series [OF a] nonneg
          arctan_term_decreasing [OF assms]])
qed

lemma sum_upto_7:
  fixes f :: "nat \<Rightarrow> real"
  shows "(\<Sum>i<4. f i) = f 0 + f 1 + f 2 + f 3"
    and "(\<Sum>i<5. f i) = f 0 + f 1 + f 2 + f 3 + f 4"
    and "(\<Sum>i<6. f i) = f 0 + f 1 + f 2 + f 3 + f 4 + f 5"
    and "(\<Sum>i<7. f i) = f 0 + f 1 + f 2 + f 3 + f 4 + f 5 + f 6"
  by (simp_all add: eval_nat_numeral)

lemma arctan_1_7_bounds:
  "(\<Sum>i<6. (- 1) ^ i * (1 / real (i * 2 + 1) * (1 / 7) ^ (i * 2 + 1))) \<le> arctan (1 / 7)"
  "arctan (1 / 7) \<le> (\<Sum>i<7. (- 1) ^ i * (1 / real (i * 2 + 1) * (1 / 7) ^ (i * 2 + 1)))"
  using arctan_enclosure [of "1 / 7" 3] by simp_all

lemma arctan_3_79_bounds:
  "(\<Sum>i<4. (- 1) ^ i * (1 / real (i * 2 + 1) * (3 / 79) ^ (i * 2 + 1))) \<le> arctan (3 / 79)"
  "arctan (3 / 79) \<le> (\<Sum>i<5. (- 1) ^ i * (1 / real (i * 2 + 1) * (3 / 79) ^ (i * 2 + 1)))"
  using arctan_enclosure [of "3 / 79" 2] by simp_all

lemma pi_bounds: "314159265 / 10 ^ 8 \<le> pi" "pi \<le> 314159266 / 10 ^ 8"
proof -
  have pi: "pi = 20 * arctan (1 / 7) + 8 * arctan (3 / 79)"
    using machin_Euler by simp
  have "(314159265 / 10 ^ 8 :: real)
          \<le> 20 * (\<Sum>i<6. (- 1) ^ i * (1 / real (i * 2 + 1) * (1 / 7) ^ (i * 2 + 1)))
            + 8 * (\<Sum>i<4. (- 1) ^ i * (1 / real (i * 2 + 1) * (3 / 79) ^ (i * 2 + 1)))"
    unfolding sum_upto_7 by (simp add: power_divide)
  also have "\<dots> \<le> pi"
    unfolding pi using arctan_1_7_bounds(1) arctan_3_79_bounds(1) by (intro add_mono mult_left_mono) simp_all
  finally show "314159265 / 10 ^ 8 \<le> pi" .
  have "pi \<le> 20 * (\<Sum>i<7. (- 1) ^ i * (1 / real (i * 2 + 1) * (1 / 7) ^ (i * 2 + 1)))
            + 8 * (\<Sum>i<5. (- 1) ^ i * (1 / real (i * 2 + 1) * (3 / 79) ^ (i * 2 + 1)))"
    unfolding pi using arctan_1_7_bounds(2) arctan_3_79_bounds(2) by (intro add_mono mult_left_mono) simp_all
  also have "\<dots> \<le> 314159266 / 10 ^ 8"
    unfolding sum_upto_7 by (simp add: power_divide)
  finally show "pi \<le> 314159266 / 10 ^ 8" .
qed

lemma sqrt_2pi_bounds: "250662827 / 10 ^ 8 \<le> sqrt (2 * pi)" "sqrt (2 * pi) \<le> 250662828 / 10 ^ 8"
proof -
  show "250662827 / 10 ^ 8 \<le> sqrt (2 * pi)"
    by (rule real_le_rsqrt) (use pi_bounds(1) in \<open>simp add: power2_eq_square\<close>)
  show "sqrt (2 * pi) \<le> 250662828 / 10 ^ 8"
    by (rule real_le_lsqrt) (use pi_bounds(2) in \<open>simp_all add: power2_eq_square\<close>)
qed

text \<open>The exponential, the logarithm of 6/5 and the square root of 1/2.\<close>

lemma exp_enclosure:
  fixes x :: real
  assumes "\<bar>x\<bar> \<le> 1"
  shows "\<bar>exp x - (\<Sum>m<n. x ^ m / fact m)\<bar> \<le> 3 * \<bar>x\<bar> ^ n / fact n"
proof -
  from Maclaurin_exp_le [of x n] obtain t where
    t: "\<bar>t\<bar> \<le> \<bar>x\<bar>" and e: "exp x = (\<Sum>m<n. x ^ m / fact m) + exp t / fact n * x ^ n"
    by blast
  have "t \<le> 1" using t assms by simp
  then have "exp t \<le> exp 1" by (simp only: exp_le_cancel_iff)
  then have t3: "exp t \<le> 3" using exp_le by (rule order_trans)
  have "\<bar>exp x - (\<Sum>m<n. x ^ m / fact m)\<bar> = \<bar>exp t / fact n * x ^ n\<bar>"
    using e by simp
  also have "\<dots> = exp t * (\<bar>x\<bar> ^ n / fact n)"
    by (simp add: abs_mult power_abs)
  also have "\<dots> \<le> 3 * (\<bar>x\<bar> ^ n / fact n)"
    using t3 by (rule mult_right_mono) simp
  finally show ?thesis by simp
qed

lemma sum_upto_3:
  fixes f :: "nat \<Rightarrow> real"
  shows "(\<Sum>i<3. f i) = f 0 + f 1 + f 2"
  by (simp add: eval_nat_numeral)

lemma ln_6_5_bounds: "18231 / 10 ^ 5 \<le> ln (6 / 5 :: real)" "ln (6 / 5 :: real) \<le> 18233 / 10 ^ 5"
proof -
  have "exp (18231 / 10 ^ 5 :: real)
          \<le> (\<Sum>m<6. (18231 / 10 ^ 5) ^ m / fact m) + 3 * \<bar>18231 / 10 ^ 5\<bar> ^ 6 / fact 6"
    using exp_enclosure [of "18231 / 10 ^ 5" 6] by (simp add: abs_le_iff)
  also have "\<dots> \<le> 6 / 5"
    unfolding sum_upto_7 by (simp add: fact_numeral power_divide)
  finally show "18231 / 10 ^ 5 \<le> ln (6 / 5 :: real)"
    by (subst ln_ge_iff) simp_all
  have "(6 / 5 :: real)
          \<le> (\<Sum>m<6. (18233 / 10 ^ 5) ^ m / fact m) - 3 * \<bar>18233 / 10 ^ 5\<bar> ^ 6 / fact 6"
    unfolding sum_upto_7 by (simp add: fact_numeral power_divide)
  also have "\<dots> \<le> exp (18233 / 10 ^ 5 :: real)"
    using exp_enclosure [of "18233 / 10 ^ 5" 6] by (simp add: abs_le_iff)
  finally have "ln (6 / 5 :: real) \<le> ln (exp (18233 / 10 ^ 5))"
    by (subst ln_le_cancel_iff) simp_all
  then show "ln (6 / 5 :: real) \<le> 18233 / 10 ^ 5" by simp
qed

lemma sqrt_half_tight: "7071 / 10 ^ 4 \<le> sqrt (1 / 2)" "sqrt (1 / 2) \<le> 70711 / 10 ^ 5"
proof -
  show "7071 / 10 ^ 4 \<le> sqrt (1 / 2)" by (rule real_le_rsqrt) (simp add: power2_eq_square)
  show "sqrt (1 / 2) \<le> 70711 / 10 ^ 5" by (rule real_le_lsqrt) (simp_all add: power2_eq_square)
qed

lemma exp_minus_1_50_le: "exp (- (1 / 50) :: real) \<le> 98021 / 10 ^ 5"
proof -
  have "exp (- (1 / 50) :: real)
          \<le> (\<Sum>m<3. (- (1 / 50)) ^ m / fact m) + 3 * \<bar>- (1 / 50)\<bar> ^ 3 / fact 3"
    using exp_enclosure [of "- (1 / 50)" 3] by (simp add: abs_le_iff)
  also have "\<dots> \<le> 98021 / 10 ^ 5"
    unfolding sum_upto_3 by (simp add: fact_numeral power_divide)
  finally show ?thesis .
qed

text \<open>The strike 120: \<open>d1\<close> and \<open>d2\<close> at volatility 0.1 and the distribution function there.\<close>

lemma bsm_d1_split2:
  assumes "0 < T" and "sigma \<noteq> 0"
  shows "bsm_d1 S K T r sigma q
           = (ln (S / K) + (r - q) * T) / (sqrt T * sigma) + sqrt T * sigma / 2"
proof -
  have "bsm_d1 S K T r sigma q = bsm_d2 S K T r sigma q + sigma * sqrt T"
    by (simp add: bsm_d2_def)
  then show ?thesis by (simp add: bsm_d2_split [OF assms])
qed

lemma d1_lower_generic:
  fixes s slo num num_lo sigma :: real
  assumes "0 < slo" and "slo \<le> s" and "num_lo \<le> num" and "num_lo \<le> 0" and "0 < sigma"
  shows "num_lo / (slo * sigma) + slo * sigma / 2 \<le> num / (s * sigma) + s * sigma / 2"
proof -
  from assms(1,2) have s: "0 < s" by simp
  have "num_lo / (slo * sigma) \<le> num_lo / (s * sigma)"
    using assms s by (intro divide_left_mono_neg mult_right_mono mult_pos_pos) simp_all
  also have "\<dots> \<le> num / (s * sigma)"
    using assms(3,5) s by (intro divide_right_mono) simp_all
  finally have "num_lo / (slo * sigma) \<le> num / (s * sigma)" .
  moreover have "slo * sigma / 2 \<le> s * sigma / 2" using assms(2,5) by simp
  ultimately show ?thesis by (rule add_mono)
qed

lemma d2_upper_generic:
  fixes s slo shi num num_hi sigma :: real
  assumes "0 < slo" and "slo \<le> s" and "s \<le> shi" and "num \<le> num_hi" and "num_hi \<le> 0"
    and "0 < sigma"
  shows "num / (s * sigma) - s * sigma / 2 \<le> num_hi / (shi * sigma) - slo * sigma / 2"
proof -
  from assms(1,2) have s: "0 < s" by simp
  have "num / (s * sigma) \<le> num_hi / (s * sigma)"
    using assms(4,6) s by (intro divide_right_mono) simp_all
  also have "\<dots> \<le> num_hi / (shi * sigma)"
    using assms s by (intro divide_left_mono_neg mult_right_mono mult_pos_pos) simp_all
  finally have "num / (s * sigma) \<le> num_hi / (shi * sigma)" .
  moreover have "slo * sigma / 2 \<le> s * sigma / 2" using assms(2,6) by simp
  ultimately show ?thesis by linarith
qed

lemma ln_5_6: "ln (5 / 6 :: real) = - ln (6 / 5)"
proof -
  have "ln (5 / 6 :: real) = ln (inverse (6 / 5))" by simp
  then show ?thesis by (simp only: ln_inverse)
qed

lemma d1_d2_120:
  "- (2332 / 1000) \<le> bsm_d1 100 120 (1 / 2) (4 / 100) (1 / 10) (1 / 100)"
  "bsm_d2 100 120 (1 / 2) (4 / 100) (1 / 10) (1 / 100) \<le> - (2401 / 1000)"
proof -
  let ?num = "ln (100 / 120) + (4 / 100 - 1 / 100) * (1 / 2) :: real"
  have num: "?num = 3 / 200 - ln (6 / 5)" using ln_5_6 by simp
  have n1: "3 / 200 - 18233 / 10 ^ 5 \<le> ?num" unfolding num using ln_6_5_bounds(2) by simp
  have n2: "?num \<le> 3 / 200 - 18231 / 10 ^ 5" unfolding num using ln_6_5_bounds(1) by simp
  have "- (2332 / 1000) \<le> (3 / 200 - 18233 / 10 ^ 5) / (7071 / 10 ^ 4 * (1 / 10))
          + 7071 / 10 ^ 4 * (1 / 10) / (2 :: real)" by simp
  also have "\<dots> \<le> ?num / (sqrt (1 / 2) * (1 / 10)) + sqrt (1 / 2) * (1 / 10) / 2"
    by (rule d1_lower_generic [OF _ sqrt_half_tight(1) n1]) simp_all
  finally show "- (2332 / 1000) \<le> bsm_d1 100 120 (1 / 2) (4 / 100) (1 / 10) (1 / 100)"
    by (subst bsm_d1_split2) simp_all
  have "?num / (sqrt (1 / 2) * (1 / 10)) - sqrt (1 / 2) * (1 / 10) / 2
          \<le> (3 / 200 - 18231 / 10 ^ 5) / (70711 / 10 ^ 5 * (1 / 10)) - 7071 / 10 ^ 4 * (1 / 10) / 2"
    by (rule d2_upper_generic [OF _ sqrt_half_tight(1) sqrt_half_tight(2) n2]) simp_all
  also have "\<dots> \<le> - (2401 / 1000)" by simp
  finally show "bsm_d2 100 120 (1 / 2) (4 / 100) (1 / 10) (1 / 100) \<le> - (2401 / 1000)"
    by (subst bsm_d2_split) simp_all
qed

lemma norm_cdf_neg: "norm_cdf (- x) = 1 / 2 - gauss_int x / sqrt (2 * pi)"
  by (simp add: norm_cdf_def gauss_int_minus)

lemma norm_cdf_neg_lower:
  assumes "0 \<le> x" and "gauss_int x \<le> G" and "0 < c" and "c \<le> sqrt (2 * pi)"
  shows "1 / 2 - G / c \<le> norm_cdf (- x)"
proof -
  from gauss_int_nonneg [OF assms(1)] assms(2) have "0 \<le> G" by (rule order_trans)
  then have "gauss_int x / sqrt (2 * pi) \<le> G / c"
    using assms(2-4) by (rule frac_le)
  then show ?thesis by (simp add: norm_cdf_neg)
qed

lemma norm_cdf_neg_upper:
  assumes "0 \<le> G" and "G \<le> gauss_int x" and "sqrt (2 * pi) \<le> c"
  shows "norm_cdf (- x) \<le> 1 / 2 - G / c"
proof -
  have "G / c \<le> gauss_int x / sqrt (2 * pi)"
    using assms by (intro frac_le) simp_all
  then show ?thesis by (simp add: norm_cdf_neg)
qed

lemma sum_upto_13:
  fixes f :: "nat \<Rightarrow> real"
  shows "(\<Sum>i<12. f i) = f 0 + f 1 + f 2 + f 3 + f 4 + f 5 + f 6 + f 7 + f 8 + f 9 + f 10 + f 11"
    and "(\<Sum>i<13. f i) = f 0 + f 1 + f 2 + f 3 + f 4 + f 5 + f 6 + f 7 + f 8 + f 9 + f 10 + f 11
           + f 12"
  by (simp_all add: eval_nat_numeral)

lemma gauss_int_2332: "gauss_int (2332 / 1000) \<le> 122863 / 10 ^ 5"
proof -
  have "gauss_int (2332 / 1000) \<le> (\<Sum>i<2 * 6 + 1. (- 1) ^ i * gauss_term (2332 / 1000) i)"
    by (rule gauss_int_enclosure(2)) (simp_all add: power2_eq_square)
  also have "\<dots> \<le> 122863 / 10 ^ 5"
    by (simp add: sum_upto_13 gauss_term_def fact_numeral power_divide)
  finally show ?thesis .
qed

lemma gauss_int_2401: "123276 / 10 ^ 5 \<le> gauss_int (2401 / 1000)"
proof -
  have "(123276 / 10 ^ 5 :: real) \<le> (\<Sum>i<2 * 6. (- 1) ^ i * gauss_term (2401 / 1000) i)"
    by (simp add: sum_upto_13 gauss_term_def fact_numeral power_divide)
  also have "\<dots> \<le> gauss_int (2401 / 1000)"
    by (rule gauss_int_enclosure(1)) (simp_all add: power2_eq_square)
  finally show ?thesis .
qed

lemma norm_cdf_mono: "x \<le> y \<Longrightarrow> norm_cdf x \<le> norm_cdf y"
  using norm_cdf_strict_mono [of x y] by (cases "x = y") simp_all

lemma call_pos_120: "0 < bsm_call 100 120 (1 / 2) (4 / 100) (1 / 10) (1 / 100)"
proof -
  let ?d1 = "bsm_d1 100 120 (1 / 2) (4 / 100) (1 / 10) (1 / 100)"
  let ?d2 = "bsm_d2 100 120 (1 / 2) (4 / 100) (1 / 10) (1 / 100)"
  let ?P1 = "1 / 2 - (122863 / 10 ^ 5) / (250662827 / 10 ^ 8) :: real"
  let ?P2 = "1 / 2 - (123276 / 10 ^ 5) / (250662828 / 10 ^ 8) :: real"
  let ?A = "100 * exp (- (1 / 100 * (1 / 2))) :: real"
  let ?B = "120 * exp (- (4 / 100 * (1 / 2))) :: real"
  have "?P1 \<le> norm_cdf (- (2332 / 1000))"
    by (rule norm_cdf_neg_lower [OF _ gauss_int_2332 _ sqrt_2pi_bounds(1)]) simp_all
  also have "\<dots> \<le> norm_cdf ?d1" by (rule norm_cdf_mono) (rule d1_d2_120(1))
  finally have c1: "?P1 \<le> norm_cdf ?d1" .
  have "norm_cdf ?d2 \<le> norm_cdf (- (2401 / 1000))" by (rule norm_cdf_mono) (rule d1_d2_120(2))
  also have "\<dots> \<le> ?P2"
    by (rule norm_cdf_neg_upper [OF _ gauss_int_2401 sqrt_2pi_bounds(2)]) simp
  finally have c2: "norm_cdf ?d2 \<le> ?P2" .
  have A: "995 / 10 \<le> ?A"
    using exp_ge_add_one_self [of "- (1 / 200) :: real"] by simp
  have B: "?B \<le> 120 * (98021 / 10 ^ 5)"
    using exp_minus_1_50_le by simp
  have P1: "0 \<le> ?P1" and P2: "0 \<le> ?P2" by simp_all
  have A0: "0 \<le> ?A" and B0: "0 \<le> ?B" by simp_all
  have "120 * (98021 / 10 ^ 5) * ?P2 < 995 / 10 * ?P1" by simp
  also have "\<dots> \<le> ?A * norm_cdf ?d1"
    using A c1 A0 P1 by (rule mult_mono)
  finally have lo: "120 * (98021 / 10 ^ 5) * ?P2 < ?A * norm_cdf ?d1" .
  have "?B * norm_cdf ?d2 \<le> ?B * ?P2" using c2 B0 by (rule mult_left_mono)
  also have "\<dots> \<le> 120 * (98021 / 10 ^ 5) * ?P2" using B P2 by (rule mult_right_mono)
  finally have "?B * norm_cdf ?d2 < ?A * norm_cdf ?d1" using lo by (rule le_less_trans)
  then show ?thesis by (simp add: bsm_call_def)
qed

lemma round_trip_120:
  assumes "sigma = 1 / 10 \<or> sigma = 1 / 5 \<or> sigma = 1 / 2"
  shows "\<exists>x. implied_volatility brentq_spec 100 120 (1 / 2) (4 / 100) (1 / 100)
               (bsm_call 100 120 (1 / 2) (4 / 100) sigma (1 / 100)) ''c'' (1 / 10 ^ 6) 100
                = Inr (Num x) \<and> \<bar>x - sigma\<bar> \<le> 1 / 10 ^ 4"
proof (rule round_trip_half_year [where A = "1 / 5"])
  show "(0::real) < 120" "(80::real) \<le> 120" by simp_all
  show s: "1 / 10 \<le> sigma" "sigma \<le> 1 / 2" using assms by auto
  have "bsm_call 100 120 (1 / 2) (4 / 100) (1 / 10) (1 / 100)
          \<le> bsm_call 100 120 (1 / 2) (4 / 100) sigma (1 / 100)"
    using s(1) by (intro bsm_call_mono) simp_all
  with call_pos_120 show "0 < bsm_call 100 120 (1 / 2) (4 / 100) sigma (1 / 100)" by simp
  show "\<bar>ln (100 / 120) + 3 / 200\<bar> \<le> (1 / 5 :: real)"
    using ln_6_5_bounds ln_5_6 by simp
  show "(1 / 5 / (707 / 1000 * (sigma - 1 / 10 ^ 4)) + 7072 / 10000 * sigma / 2)\<^sup>2 \<le> 12"
    using assms by (elim disjE; hypsubst) (simp_all add: power2_eq_square)
  show "(1 / 5 / (707 / 1000 * sigma) + 7072 / 10000 * (sigma + 1 / 10 ^ 4) / 2)\<^sup>2 \<le> 12"
    using assms by (elim disjE; hypsubst) (simp_all add: power2_eq_square)
qed

text \<open>The at-the-money scenario: \<open>d1 = 7/20\<close> and \<open>d2 = 3/20\<close>.\<close>

lemma norm_cdf_lower:
  assumes "0 \<le> G" and "G \<le> gauss_int x" and "sqrt (2 * pi) \<le> c"
  shows "1 / 2 + G / c \<le> norm_cdf x"
proof -
  have "G / c \<le> gauss_int x / sqrt (2 * pi)"
    using assms by (intro frac_le) simp_all
  then show ?thesis by (simp add: norm_cdf_def)
qed

lemma norm_cdf_upper:
  assumes "0 \<le> x" and "gauss_int x \<le> G" and "0 < c" and "c \<le> sqrt (2 * pi)"
  shows "norm_cdf x \<le> 1 / 2 + G / c"
proof -
  from gauss_int_nonneg [OF assms(1)] assms(2) have "0 \<le> G" by (rule order_trans)
  then have "gauss_int x / sqrt (2 * pi) \<le> G / c"
    using assms(2-4) by (rule frac_le)
  then show ?thesis by (simp add: norm_cdf_def)
qed

lemma call_enclosure:
  fixes S K E P1 P2 :: real
  assumes "p1lo \<le> P1" and "P1 \<le> p1hi" and "p2lo \<le> P2" and "P2 \<le> p2hi"
    and "elo \<le> E" and "E \<le> ehi" and "0 \<le> elo" and "0 \<le> p2lo" and "0 \<le> S" and "0 \<le> K"
  shows "S * p1lo - K * (ehi * p2hi) \<le> S * P1 - K * (E * P2)"
    and "S * P1 - K * (E * P2) \<le> S * p1hi - K * (elo * p2lo)"
proof -
  from assms(3,8) have P2: "0 \<le> P2" by simp
  from assms(5,7) have E: "0 \<le> E" by simp
  from E assms(6) have ehi: "0 \<le> ehi" by simp
  have up: "E * P2 \<le> ehi * p2hi" using assms(6) assms(4) ehi P2 by (rule mult_mono)
  have lo: "elo * p2lo \<le> E * P2" using assms(5) assms(3) E assms(8) by (rule mult_mono)
  have a: "S * p1lo \<le> S * P1" using assms(1,9) by (rule mult_left_mono)
  have b: "S * P1 \<le> S * p1hi" using assms(2,9) by (rule mult_left_mono)
  have c: "K * (E * P2) \<le> K * (ehi * p2hi)" using up assms(10) by (rule mult_left_mono)
  have d: "K * (elo * p2lo) \<le> K * (E * P2)" using lo assms(10) by (rule mult_left_mono)
  from a c show "S * p1lo - K * (ehi * p2hi) \<le> S * P1 - K * (E * P2)" by simp
  from b d show "S * P1 - K * (E * P2) \<le> S * p1hi - K * (elo * p2lo)" by simp
qed

lemma gauss_int_7_20:
  "342983556 / 10 ^ 9 \<le> gauss_int (7 / 20)" "gauss_int (7 / 20) \<le> 34298358 / 10 ^ 8"
proof -
  have "(342983556 / 10 ^ 9 :: real) \<le> (\<Sum>i<2 * 2. (- 1) ^ i * gauss_term (7 / 20) i)"
    by (simp add: sum_upto_7 gauss_term_def fact_numeral power_divide)
  also have "\<dots> \<le> gauss_int (7 / 20)"
    by (rule gauss_int_enclosure(1)) (simp_all add: power2_eq_square)
  finally show "342983556 / 10 ^ 9 \<le> gauss_int (7 / 20)" .
  have "gauss_int (7 / 20) \<le> (\<Sum>i<2 * 2 + 1. (- 1) ^ i * gauss_term (7 / 20) i)"
    by (rule gauss_int_enclosure(2)) (simp_all add: power2_eq_square)
  also have "\<dots> \<le> 34298358 / 10 ^ 8"
    by (simp add: sum_upto_7 gauss_term_def fact_numeral power_divide)
  finally show "gauss_int (7 / 20) \<le> 34298358 / 10 ^ 8" .
qed

lemma gauss_int_3_20:
  "149439393 / 10 ^ 9 \<le> gauss_int (3 / 20)" "gauss_int (3 / 20) \<le> 149439399 / 10 ^ 9"
proof -
  have "(149439393 / 10 ^ 9 :: real) \<le> (\<Sum>i<2 * 2. (- 1) ^ i * gauss_term (3 / 20) i)"
    by (simp add: sum_upto_7 gauss_term_def fact_numeral power_divide)
  also have "\<dots> \<le> gauss_int (3 / 20)"
    by (rule gauss_int_enclosure(1)) (simp_all add: power2_eq_square)
  finally show "149439393 / 10 ^ 9 \<le> gauss_int (3 / 20)" .
  have "gauss_int (3 / 20) \<le> (\<Sum>i<2 * 1 + 1. (- 1) ^ i * gauss_term (3 / 20) i)"
    by (rule gauss_int_enclosure(2)) (simp_all add: power2_eq_square)
  also have "\<dots> \<le> 149439399 / 10 ^ 9"
    by (simp add: sum_upto_3 gauss_term_def fact_numeral power_divide)
  finally show "gauss_int (3 / 20) \<le> 149439399 / 10 ^ 9" .
qed

lemma exp_minus_1_20_bounds:
  "951229424 / 10 ^ 9 \<le> exp (- (1 / 20) :: real)" "exp (- (1 / 20) :: real) \<le> 951229425 / 10 ^ 9"
proof -
  have "\<bar>exp (- (1 / 20) :: real) - (\<Sum>m<6. (- (1 / 20)) ^ m / fact m)\<bar>
          \<le> 3 * \<bar>- (1 / 20) :: real\<bar> ^ 6 / fact 6"
    by (rule exp_enclosure) simp
  then have "\<bar>exp (- (1 / 20) :: real) - (\<Sum>m<6. (- (1 / 20)) ^ m / fact m)\<bar> \<le> 1 / 10 ^ 10"
    by (rule order_trans) (simp add: fact_numeral power_divide)
  moreover have "951229424 / 10 ^ 9 + 1 / 10 ^ 10 \<le> (\<Sum>m<6. (- (1 / 20 :: real)) ^ m / fact m)"
    by (simp add: sum_upto_7 fact_numeral power_divide)
  moreover have "(\<Sum>m<6. (- (1 / 20 :: real)) ^ m / fact m) + 1 / 10 ^ 10 \<le> 951229425 / 10 ^ 9"
    by (simp add: sum_upto_7 fact_numeral power_divide)
  ultimately show "951229424 / 10 ^ 9 \<le> exp (- (1 / 20) :: real)"
    and "exp (- (1 / 20) :: real) \<le> 951229425 / 10 ^ 9"
    by linarith+
qed

lemma scenario_price:
  "1045055 / 10 ^ 5 \<le> bsm_call 100 100 1 (5 / 100) (1 / 5) 0"
  "bsm_call 100 100 1 (5 / 100) (1 / 5) 0 \<le> 1045065 / 10 ^ 5"
proof -
  let ?slo = "250662827 / 10 ^ 8 :: real" and ?shi = "250662828 / 10 ^ 8 :: real"
  have d1: "bsm_d1 100 100 1 (5 / 100) (1 / 5) 0 = 7 / 20"
    by (simp add: bsm_d1_def power2_eq_square)
  then have d2: "bsm_d2 100 100 1 (5 / 100) (1 / 5) 0 = 3 / 20"
    by (simp add: bsm_d2_def)
  have eq: "bsm_call 100 100 1 (5 / 100) (1 / 5) 0
              = 100 * norm_cdf (7 / 20) - 100 * (exp (- (1 / 20)) * norm_cdf (3 / 20))"
    unfolding bsm_call_def d1 d2 by simp
  have p1lo: "1 / 2 + (342983556 / 10 ^ 9) / ?shi \<le> norm_cdf (7 / 20)"
    by (rule norm_cdf_lower [OF _ gauss_int_7_20(1) sqrt_2pi_bounds(2)]) simp
  have p1hi: "norm_cdf (7 / 20) \<le> 1 / 2 + (34298358 / 10 ^ 8) / ?slo"
    by (rule norm_cdf_upper [OF _ gauss_int_7_20(2) _ sqrt_2pi_bounds(1)]) simp_all
  have p2lo: "1 / 2 + (149439393 / 10 ^ 9) / ?shi \<le> norm_cdf (3 / 20)"
    by (rule norm_cdf_lower [OF _ gauss_int_3_20(1) sqrt_2pi_bounds(2)]) simp
  have p2hi: "norm_cdf (3 / 20) \<le> 1 / 2 + (149439399 / 10 ^ 9) / ?slo"
    by (rule norm_cdf_upper [OF _ gauss_int_3_20(2) _ sqrt_2pi_bounds(1)]) simp_all
  note enc = call_enclosure [OF p1lo p1hi p2lo p2hi exp_minus_1_20_bounds, of 100 100]
  have "(1045055 / 10 ^ 5 :: real)
          \<le> 100 * (1 / 2 + (342983556 / 10 ^ 9) / ?shi)
            - 100 * (951229425 / 10 ^ 9 * (1 / 2 + (149439399 / 10 ^ 9) / ?slo))"
    by simp
  also have "\<dots> \<le> 100 * norm_cdf (7 / 20) - 100 * (exp (- (1 / 20)) * norm_cdf (3 / 20))"
    by (rule enc(1)) simp_all
  finally show "1045055 / 10 ^ 5 \<le> bsm_call 100 100 1 (5 / 100) (1 / 5) 0"
    unfolding eq .
  have "100 * norm_cdf (7 / 20) - 100 * (exp (- (1 / 20)) * norm_cdf (3 / 20))
          \<le> 100 * (1 / 2 + (34298358 / 10 ^ 8) / ?slo)
            - 100 * (951229424 / 10 ^ 9 * (1 / 2 + (149439393 / 10 ^ 9) / ?shi))"
    by (rule enc(2)) simp_all
  also have "\<dots> \<le> 1045065 / 10 ^ 5" by simp
  finally show "bsm_call 100 100 1 (5 / 100) (1 / 5) 0 \<le> 1045065 / 10 ^ 5"
    unfolding eq .
qed

lemma round_trip_scenario_tight:
  "\<exists>x. implied_volatility brentq_spec 100 100 1 (5 / 100) 0
         (bsm_call 100 100 1 (5 / 100) (1 / 5) 0) ''c'' (1 / 10 ^ 6) 100
          = Inr (Num x) \<and> \<bar>x - 1 / 5\<bar> \<le> 5 / 10 ^ 5"
proof (rule round_trip_case [where A = "5 / 100" and slo = 1 and shi = 1 and n = 1])
  have "0 \<le> bsm_d2 100 100 1 (5 / 100) (1 / 5) 0"
    by (rule bsm_d2_nonneg) (simp_all add: power2_eq_square)
  then show "0 < bsm_call 100 100 1 (5 / 100) (1 / 5) 0"
    by (intro call_pos_in_the_money) simp_all
  show "(200 - 1 / 10 ^ 6) / 2 ^ nat 100 \<le> (1 / 10 ^ 6 :: real)" by simp
qed (simp_all add: power2_eq_square)

lemma round_trip_half_year_grid:
  assumes "K = 80 \<or> K = 100 \<or> K = 120" and "sigma = 1 / 10 \<or> sigma = 1 / 5 \<or> sigma = 1 / 2"
  shows "\<exists>x. implied_volatility brentq_spec 100 K (1 / 2) (4 / 100) (1 / 100)
               (bsm_call 100 K (1 / 2) (4 / 100) sigma (1 / 100)) ''c'' (1 / 10 ^ 6) 100
                = Inr (Num x) \<and> \<bar>x - sigma\<bar> \<le> 1 / 10 ^ 4"
  using assms(1) round_trip_80 [OF assms(2)] round_trip_100 [OF assms(2)] round_trip_120 [OF assms(2)]
  by (elim disjE; hypsubst) assumption+

section \<open>The Gaussian integral\<close>

text \<open>
  \<open>gauss_int x\<close> tends to \<open>sqrt (pi / 2)\<close>, so that \<open>norm_cdf\<close> tends to 1. The proof compares
  derivatives: \<open>(1 - s\<^sup>2) ^ n \<le> exp (- n s\<^sup>2) \<le> 1 / (1 + s\<^sup>2) ^ n\<close>, integrated with
  \<open>s = sin\<close> on the left and \<open>s = tan\<close> on the right, encloses the Gaussian integral between
  two Wallis integrals, whose product formula gives the limit.
\<close>

lemma cos_int_step_generic:
  fixes c s u N :: real
  assumes "s\<^sup>2 + c\<^sup>2 = 1" and "N + 1 \<noteq> 0"
  shows "(N * (- s * u) * s + c * (c * u) + N * u) / (N + 1) = c * (c * u)"
proof -
  from assms(1) have s: "1 - s * s = c * c" by (simp add: power2_eq_square)
  have "N * (- s * u) * s + c * (c * u) + N * u = N * u * (1 - s * s) + c * (c * u)"
    by (simp add: algebra_simps)
  also have "\<dots> = N * u * (c * c) + c * (c * u)" by (simp only: s)
  also have "\<dots> = (N + 1) * (c * (c * u))" by (simp add: algebra_simps)
  finally have "N * (- s * u) * s + c * (c * u) + N * u = (N + 1) * (c * (c * u))" .
  with assms(2) show ?thesis by simp
qed

lemma cos_int_step_algebra:
  fixes c s :: real
  assumes "s\<^sup>2 + c\<^sup>2 = 1"
  shows "(real (Suc n) * (- s * c ^ n) * s + c * c ^ Suc n + real (Suc n) * c ^ n)
           / real (Suc (Suc n)) = c ^ Suc (Suc n)"
proof -
  have r: "real (Suc (Suc n)) = real (Suc n) + 1" by simp
  have p: "c ^ Suc n = c * c ^ n" "c ^ Suc (Suc n) = c * (c * c ^ n)" by simp_all
  show ?thesis
    unfolding r p by (rule cos_int_step_generic [OF assms]) (simp add: add_nonneg_eq_0_iff)
qed

lemma DERIV_cos_int: "DERIV (cos_int k) x :> cos x ^ k"
proof (induction k arbitrary: x rule: less_induct)
  case (less k)
  show ?case
  proof (cases k)
    case 0
    have "cos_int 0 = (\<lambda>x. x)" by (rule ext) simp
    with 0 show ?thesis by simp
  next
    case (Suc j)
    show ?thesis
    proof (cases j)
      case 0
      have "cos_int (Suc 0) = sin" by (rule ext) simp
      with 0 Suc show ?thesis by simp
    next
      case (Suc n)
      with \<open>k = Suc j\<close> have k: "k = Suc (Suc n)" by simp
      have IH: "DERIV (cos_int n) x :> cos x ^ n" using less [of n] k by simp
      have eq: "cos_int (Suc (Suc n))
                  = (\<lambda>x. (cos x ^ Suc n * sin x + real (Suc n) * cos_int n x) / real (Suc (Suc n)))"
        by (rule ext) simp
      have d1: "DERIV (\<lambda>x. cos x ^ Suc n) x :> real (Suc n) * (- sin x * cos x ^ n)"
        using DERIV_power [OF DERIV_cos, where n = "Suc n" and x = x] by simp
      have d2: "DERIV (\<lambda>x. cos x ^ Suc n * sin x) x
                  :> real (Suc n) * (- sin x * cos x ^ n) * sin x + cos x * cos x ^ Suc n"
        by (rule DERIV_mult [OF d1 DERIV_sin])
      have d3: "DERIV (\<lambda>x. real (Suc n) * cos_int n x) x :> real (Suc n) * cos x ^ n"
        by (rule DERIV_cmult [OF IH])
      have "DERIV (\<lambda>x. (cos x ^ Suc n * sin x + real (Suc n) * cos_int n x) / real (Suc (Suc n))) x
              :> (real (Suc n) * (- sin x * cos x ^ n) * sin x + cos x * cos x ^ Suc n
                    + real (Suc n) * cos x ^ n) / real (Suc (Suc n))"
        by (rule DERIV_cdivide [OF DERIV_add [OF d2 d3]])
      also have "(real (Suc n) * (- sin x * cos x ^ n) * sin x + cos x * cos x ^ Suc n
                    + real (Suc n) * cos x ^ n) / real (Suc (Suc n)) = cos x ^ Suc (Suc n)"
        by (rule cos_int_step_algebra) simp
      finally show ?thesis unfolding k eq .
    qed
  qed
qed

lemma cos_int_at_0: "cos_int k 0 = 0"
  by (induction k "0 :: real" rule: cos_int.induct) simp_all

lemma wallis_Suc_Suc:
  "cos_int (Suc (Suc n)) (pi / 2) = real (Suc n) / real (Suc (Suc n)) * cos_int n (pi / 2)"
  by simp

lemma frac_cancel_aux:
  fixes a b p :: real
  assumes "a \<noteq> 0"
  shows "a / b * (p / (2 * a)) = p / (2 * b)"
  using assms by simp

lemma wallis_product: "cos_int k (pi / 2) * cos_int (Suc k) (pi / 2) = pi / (2 * real (Suc k))"
proof (induction k)
  case 0
  show ?case by simp
next
  case (Suc k)
  have "cos_int (Suc k) (pi / 2) * cos_int (Suc (Suc k)) (pi / 2)
          = real (Suc k) / real (Suc (Suc k)) * (cos_int k (pi / 2) * cos_int (Suc k) (pi / 2))"
    unfolding wallis_Suc_Suc by (simp only: mult_ac)
  also have "\<dots> = pi / (2 * real (Suc (Suc k)))"
    unfolding Suc.IH by (rule frac_cancel_aux) simp
  finally show ?case .
qed

lemma DERIV_le_imp_diff_le:
  fixes F G :: "real \<Rightarrow> real"
  assumes "a \<le> b"
    and "\<And>x. a \<le> x \<Longrightarrow> x \<le> b \<Longrightarrow> DERIV F x :> f x"
    and "\<And>x. a \<le> x \<Longrightarrow> x \<le> b \<Longrightarrow> DERIV G x :> g x"
    and "\<And>x. a \<le> x \<Longrightarrow> x \<le> b \<Longrightarrow> f x \<le> g x"
  shows "F b - F a \<le> G b - G a"
proof -
  have "G a - F a \<le> G b - F b"
  proof (rule DERIV_nonneg_imp_nondecreasing [of a b "\<lambda>x. G x - F x"])
    show "a \<le> b" by fact
    fix x assume x: "a \<le> x" "x \<le> b"
    have "DERIV (\<lambda>x. G x - F x) x :> g x - f x"
      by (intro derivative_intros assms(2,3) x)
    moreover have "0 \<le> g x - f x" using assms(4) [OF x] by simp
    ultimately show "\<exists>y. DERIV (\<lambda>x. G x - F x) x :> y \<and> 0 \<le> y" by blast
  qed
  then show ?thesis by simp
qed

lemma cos_int_mono:
  assumes "0 \<le> a" and "a \<le> b" and "b \<le> pi / 2"
  shows "cos_int k a \<le> cos_int k b"
proof (rule DERIV_nonneg_imp_nondecreasing [of a b "cos_int k"])
  show "a \<le> b" by fact
  fix x assume x: "a \<le> x" "x \<le> b"
  then have "0 \<le> cos x" using assms by (intro cos_ge_zero) simp_all
  then have "0 \<le> cos x ^ k" by simp
  with DERIV_cos_int show "\<exists>y. DERIV (cos_int k) x :> y \<and> 0 \<le> y" by blast
qed

lemma cos_int_nonneg:
  assumes "0 \<le> x" and "x \<le> pi / 2"
  shows "0 \<le> cos_int k x"
  using cos_int_mono [of 0 x k] assms by (simp add: cos_int_at_0)

lemma cos_int_Suc_le:
  assumes "0 \<le> x" and "x \<le> pi / 2"
  shows "cos_int (Suc k) x \<le> cos_int k x"
proof -
  have "cos_int (Suc k) x - cos_int (Suc k) 0 \<le> cos_int k x - cos_int k 0"
  proof (rule DERIV_le_imp_diff_le [where f = "\<lambda>x. cos x ^ Suc k" and g = "\<lambda>x. cos x ^ k"])
    show "0 \<le> x" by fact
    fix y assume y: "0 \<le> y" "y \<le> x"
    show "DERIV (cos_int (Suc k)) y :> cos y ^ Suc k" by (rule DERIV_cos_int)
    show "DERIV (cos_int k) y :> cos y ^ k" by (rule DERIV_cos_int)
    have c: "0 \<le> cos y" using y assms by (intro cos_ge_zero) simp_all
    have "cos y * cos y ^ k \<le> 1 * cos y ^ k"
      by (rule mult_right_mono) (use c in simp_all)
    then show "cos y ^ Suc k \<le> cos y ^ k" by simp
  qed
  then show ?thesis by (simp add: cos_int_at_0)
qed

lemma wallis_pos: "0 < cos_int k (pi / 2)"
proof -
  have a: "0 \<le> cos_int k (pi / 2)" and b: "0 \<le> cos_int (Suc k) (pi / 2)"
    by (rule cos_int_nonneg; simp)+
  have "0 < cos_int k (pi / 2) * cos_int (Suc k) (pi / 2)"
    unfolding wallis_product by simp
  then have "cos_int k (pi / 2) \<noteq> 0" by auto
  with a show ?thesis by simp
qed

lemma wallis_square_upper:
  "(cos_int (Suc k) (pi / 2))\<^sup>2 \<le> pi / (2 * real (Suc k))"
proof -
  have "cos_int (Suc k) (pi / 2) * cos_int (Suc k) (pi / 2)
          \<le> cos_int k (pi / 2) * cos_int (Suc k) (pi / 2)"
    by (rule mult_right_mono [OF cos_int_Suc_le]) (simp_all add: cos_int_nonneg)
  then show ?thesis unfolding wallis_product by (simp add: power2_eq_square)
qed

lemma wallis_square_lower:
  "pi / (2 * real (Suc k)) \<le> (cos_int k (pi / 2))\<^sup>2"
proof -
  have "cos_int k (pi / 2) * cos_int (Suc k) (pi / 2)
          \<le> cos_int k (pi / 2) * cos_int k (pi / 2)"
    by (rule mult_left_mono [OF cos_int_Suc_le]) (simp_all add: cos_int_nonneg)
  then show ?thesis unfolding wallis_product by (simp add: power2_eq_square)
qed

text \<open>The Gaussian integral between two Wallis integrals.\<close>

lemma exp_neg_ge: "1 - s \<le> exp (- s)" for s :: real
  using exp_ge_add_one_self [of "- s"] by simp

lemma DERIV_gauss_int_scaled:
  assumes "c \<noteq> 0" and "DERIV g x :> c * D"
  shows "DERIV (\<lambda>x. gauss_int (g x) / c) x :> exp (- ((g x)\<^sup>2) / 2) * D"
proof -
  have "DERIV (\<lambda>x. gauss_int (g x)) x :> exp (- ((g x)\<^sup>2) / 2) * (c * D)"
    by (rule DERIV_chain2 [OF DERIV_gauss_int assms(2)])
  then have "DERIV (\<lambda>x. gauss_int (g x) / c) x :> exp (- ((g x)\<^sup>2) / 2) * (c * D) / c"
    by (rule DERIV_cdivide)
  moreover have "exp (- ((g x)\<^sup>2) / 2) * (c * D) / c = exp (- ((g x)\<^sup>2) / 2) * D"
    using assms(1) by simp
  ultimately show ?thesis by simp
qed

lemma gauss_exponent:
  fixes c t :: real
  assumes "c\<^sup>2 = 2 * real n"
  shows "exp (- ((c * t)\<^sup>2) / 2) = exp (- (t\<^sup>2)) ^ n"
proof -
  have "(c * t)\<^sup>2 = c\<^sup>2 * t\<^sup>2" by (rule power_mult_distrib)
  then have "- ((c * t)\<^sup>2) / 2 = real n * (- (t\<^sup>2))" by (simp add: assms)
  then show ?thesis by (simp only: exp_of_nat_mult)
qed

lemma gauss_lower:
  "sqrt (2 * real n) * cos_int (2 * n + 1) (pi / 2) \<le> gauss_int (sqrt (2 * real n))"
proof (cases "n = 0")
  case True
  then show ?thesis by (simp add: gauss_int_0)
next
  case False
  define c where "c = sqrt (2 * real n)"
  from False have c: "0 < c" by (simp add: c_def)
  have c2: "c\<^sup>2 = 2 * real n" by (simp add: c_def)
  have "cos_int (2 * n + 1) (pi / 2) - cos_int (2 * n + 1) 0
          \<le> gauss_int (c * sin (pi / 2)) / c - gauss_int (c * sin 0) / c"
  proof (rule DERIV_le_imp_diff_le [where f = "\<lambda>x. cos x ^ (2 * n + 1)"
        and g = "\<lambda>x. exp (- ((c * sin x)\<^sup>2) / 2) * cos x"])
    show "0 \<le> pi / 2" by simp
    fix x :: real assume x: "0 \<le> x" "x \<le> pi / 2"
    show "DERIV (cos_int (2 * n + 1)) x :> cos x ^ (2 * n + 1)" by (rule DERIV_cos_int)
    have "DERIV (\<lambda>x. c * sin x) x :> c * cos x"
      by (rule DERIV_cmult [OF DERIV_sin])
    with c show "DERIV (\<lambda>x. gauss_int (c * sin x) / c) x :> exp (- ((c * sin x)\<^sup>2) / 2) * cos x"
      by (intro DERIV_gauss_int_scaled) simp_all
    have c0: "0 \<le> cos x" using x by (intro cos_ge_zero) simp_all
    have "(cos x)\<^sup>2 = 1 - (sin x)\<^sup>2" by (simp add: cos_squared_eq)
    also have "\<dots> \<le> exp (- ((sin x)\<^sup>2))" by (rule exp_neg_ge)
    finally have "((cos x)\<^sup>2) ^ n \<le> exp (- ((sin x)\<^sup>2)) ^ n"
      by (intro power_mono) simp_all
    then have "cos x ^ (2 * n) \<le> exp (- ((c * sin x)\<^sup>2) / 2)"
      by (simp only: gauss_exponent [OF c2] power_mult)
    then have "cos x ^ (2 * n) * cos x \<le> exp (- ((c * sin x)\<^sup>2) / 2) * cos x"
      using c0 by (rule mult_right_mono)
    moreover have "cos x ^ (2 * n + 1) = cos x ^ (2 * n) * cos x" by simp
    ultimately show "cos x ^ (2 * n + 1) \<le> exp (- ((c * sin x)\<^sup>2) / 2) * cos x"
      by (simp only:)
  qed
  then have "cos_int (2 * n + 1) (pi / 2) \<le> gauss_int c / c"
    by (simp add: cos_int_at_0 gauss_int_0)
  then have "cos_int (2 * n + 1) (pi / 2) * c \<le> gauss_int c"
    using c by (simp add: pos_le_divide_eq)
  then show ?thesis by (simp add: c_def mult.commute)
qed

lemma exp_neg_sq_le_cos_sq:
  fixes x :: real
  assumes "0 < cos x"
  shows "exp (- ((tan x)\<^sup>2)) \<le> (cos x)\<^sup>2"
proof -
  from assms have "cos x \<noteq> 0" by simp
  then have "1 + (tan x)\<^sup>2 = (inverse (cos x))\<^sup>2" by (rule tan_sec)
  moreover have "1 + (tan x)\<^sup>2 \<le> exp ((tan x)\<^sup>2)" by (rule exp_ge_add_one_self)
  ultimately have "(inverse (cos x))\<^sup>2 \<le> exp ((tan x)\<^sup>2)" by simp
  moreover have "0 < (inverse (cos x))\<^sup>2" using assms by simp
  ultimately have "inverse (exp ((tan x)\<^sup>2)) \<le> inverse ((inverse (cos x))\<^sup>2)"
    by (intro le_imp_inverse_le)
  then show ?thesis by (simp add: exp_minus power_inverse)
qed

lemma gauss_upper:
  assumes "0 \<le> y"
  shows "gauss_int y \<le> sqrt (2 * real (Suc m)) * cos_int (2 * m) (pi / 2)"
proof -
  define c where "c = sqrt (2 * real (Suc m))"
  have c: "0 < c" by (simp add: c_def)
  have c2: "c\<^sup>2 = 2 * real (Suc m)" by (simp add: c_def)
  define t0 where "t0 = arctan (y / c)"
  have t0: "0 \<le> t0" "t0 < pi / 2"
  proof -
    show "0 \<le> t0" using assms c by (simp add: t0_def)
    show "t0 < pi / 2" unfolding t0_def by (rule arctan_ubound)
  qed
  have tan0: "c * tan t0 = y" using c by (simp add: t0_def tan_arctan)
  have "gauss_int (c * tan t0) / c - gauss_int (c * tan 0) / c
          \<le> cos_int (2 * m) t0 - cos_int (2 * m) 0"
  proof (rule DERIV_le_imp_diff_le [where g = "\<lambda>x. cos x ^ (2 * m)"
        and f = "\<lambda>x. exp (- ((c * tan x)\<^sup>2) / 2) * inverse ((cos x)\<^sup>2)"])
    show "0 \<le> t0" by fact
    fix x :: real assume x: "0 \<le> x" "x \<le> t0"
    show "DERIV (cos_int (2 * m)) x :> cos x ^ (2 * m)" by (rule DERIV_cos_int)
    have cpos: "0 < cos x" using x t0 by (intro cos_gt_zero_pi) simp_all
    then have "DERIV tan x :> inverse ((cos x)\<^sup>2)" by (intro DERIV_tan) simp
    then have "DERIV (\<lambda>x. c * tan x) x :> c * inverse ((cos x)\<^sup>2)"
      by (rule DERIV_cmult)
    with c show "DERIV (\<lambda>x. gauss_int (c * tan x) / c) x
                   :> exp (- ((c * tan x)\<^sup>2) / 2) * inverse ((cos x)\<^sup>2)"
      by (intro DERIV_gauss_int_scaled) simp_all
    have "exp (- ((tan x)\<^sup>2)) ^ Suc m \<le> ((cos x)\<^sup>2) ^ Suc m"
      by (intro power_mono exp_neg_sq_le_cos_sq cpos) simp
    then have "exp (- ((c * tan x)\<^sup>2) / 2) \<le> ((cos x)\<^sup>2) ^ Suc m"
      by (simp only: gauss_exponent [OF c2])
    then have "exp (- ((c * tan x)\<^sup>2) / 2) * inverse ((cos x)\<^sup>2)
                 \<le> ((cos x)\<^sup>2) ^ Suc m * inverse ((cos x)\<^sup>2)"
      by (rule mult_right_mono) simp
    also have "\<dots> = ((cos x)\<^sup>2) ^ m" using cpos by simp
    also have "\<dots> = cos x ^ (2 * m)" by (simp only: power_mult)
    finally show "exp (- ((c * tan x)\<^sup>2) / 2) * inverse ((cos x)\<^sup>2) \<le> cos x ^ (2 * m)" .
  qed
  then have "gauss_int y / c \<le> cos_int (2 * m) t0"
    by (simp add: tan0 cos_int_at_0 gauss_int_0)
  also have "\<dots> \<le> cos_int (2 * m) (pi / 2)"
    using t0 by (intro cos_int_mono) simp_all
  finally have "gauss_int y \<le> cos_int (2 * m) (pi / 2) * c"
    using c by (simp add: pos_divide_le_eq)
  then show ?thesis by (simp add: c_def mult.commute)
qed

text \<open>The limit, and the monotone function that bounds the tail.\<close>

lemma div_less_swap:
  fixes p e N :: real
  assumes "0 < e" and "0 < N" and "p / e < N"
  shows "p / N < e"
proof -
  from assms(1,3) have "p < N * e" by (simp add: pos_divide_less_eq)
  then have "p < e * N" by (simp only: mult.commute)
  with assms(2) show ?thesis by (simp add: pos_divide_less_eq)
qed

lemma gauss_int_sq_le_step:
  assumes "0 \<le> y"
  shows "(gauss_int y)\<^sup>2 \<le> pi / 2 + pi / 2 / real (Suc j)"
proof -
  have g: "0 \<le> gauss_int y" using assms by (rule gauss_int_nonneg)
  define W where "W = cos_int (Suc (2 * j + 1)) (pi / 2)"
  have k: "2 * Suc j = Suc (2 * j + 1)" by simp
  have "gauss_int y \<le> sqrt (2 * real (Suc (Suc j))) * cos_int (2 * Suc j) (pi / 2)"
    using assms by (rule gauss_upper)
  then have "gauss_int y \<le> sqrt (2 * real (Suc (Suc j))) * W"
    unfolding k W_def .
  then have "(gauss_int y)\<^sup>2 \<le> (sqrt (2 * real (Suc (Suc j))) * W)\<^sup>2"
    using g by (intro power_mono)
  also have "\<dots> = 2 * real (Suc (Suc j)) * W\<^sup>2"
    by (simp add: power_mult_distrib)
  also have "\<dots> \<le> 2 * real (Suc (Suc j)) * (pi / (2 * real (Suc (2 * j + 1))))"
    unfolding W_def by (intro mult_left_mono wallis_square_upper) simp
  also have "\<dots> = pi / 2 + pi / 2 / real (Suc j)"
    by (simp add: field_simps)
  finally show ?thesis .
qed

lemma gauss_int_sq_le:
  assumes "0 \<le> y"
  shows "(gauss_int y)\<^sup>2 \<le> pi / 2"
proof (rule field_le_epsilon)
  fix e :: real assume e: "0 < e"
  obtain j where j: "pi / 2 / e < real j" using reals_Archimedean2 by blast
  then have j': "pi / 2 / e < real (Suc j)" by simp
  have "0 < real (Suc j)" by simp
  with e have "pi / 2 / real (Suc j) < e" using j' by (rule div_less_swap)
  with gauss_int_sq_le_step [OF assms, of j] show "(gauss_int y)\<^sup>2 \<le> pi / 2 + e"
    by linarith
qed

lemma gauss_int_le_sqrt: "gauss_int y \<le> sqrt (pi / 2)"
proof (cases "0 \<le> y")
  case True
  then show ?thesis by (intro real_le_rsqrt gauss_int_sq_le)
next
  case False
  then have "0 \<le> gauss_int (- y)" by (intro gauss_int_nonneg) simp
  then have "gauss_int y \<le> 0" by (simp add: gauss_int_minus)
  also have "0 \<le> sqrt (pi / 2)" by simp
  finally show ?thesis .
qed

lemma gauss_int_sqrt_lower:
  "pi / 2 - pi / 2 / real (Suc n) \<le> (gauss_int (sqrt (2 * real n)))\<^sup>2"
proof -
  define W where "W = cos_int (2 * n + 1) (pi / 2)"
  have w: "0 \<le> W" unfolding W_def by (rule cos_int_nonneg) simp_all
  have lo: "sqrt (2 * real n) * W \<le> gauss_int (sqrt (2 * real n))"
    unfolding W_def by (rule gauss_lower)
  have "pi / 2 - pi / 2 / real (Suc n) = 2 * real n * (pi / (2 * real (Suc (2 * n + 1))))"
    by (simp add: field_simps)
  also have "\<dots> \<le> 2 * real n * W\<^sup>2"
    unfolding W_def by (intro mult_left_mono wallis_square_lower) simp
  also have "\<dots> = (sqrt (2 * real n) * W)\<^sup>2"
    by (simp add: power_mult_distrib)
  also have "\<dots> \<le> (gauss_int (sqrt (2 * real n)))\<^sup>2"
    using w lo by (intro power_mono) simp_all
  finally show ?thesis .
qed

lemma DERIV_gauss_tail:
  assumes "u \<noteq> 0"
  shows "DERIV (\<lambda>u. gauss_int u + exp (- (u\<^sup>2) / 2) / u) u :> - (exp (- (u\<^sup>2) / 2) / u\<^sup>2)"
proof -
  have "DERIV (\<lambda>u. - (u\<^sup>2) / 2) u :> - u"
    by (auto intro!: derivative_eq_intros)
  then have e: "DERIV (\<lambda>u. exp (- (u\<^sup>2) / 2)) u :> exp (- (u\<^sup>2) / 2) * (- u)"
    by (rule DERIV_chain2 [OF DERIV_exp])
  have q: "DERIV (\<lambda>u. exp (- (u\<^sup>2) / 2) / u) u
             :> (exp (- (u\<^sup>2) / 2) * (- u) * u - exp (- (u\<^sup>2) / 2) * 1) / (u * u)"
    by (rule DERIV_divide [OF e DERIV_ident assms])
  have "DERIV (\<lambda>u. gauss_int u + exp (- (u\<^sup>2) / 2) / u) u
          :> exp (- (u\<^sup>2) / 2)
             + (exp (- (u\<^sup>2) / 2) * (- u) * u - exp (- (u\<^sup>2) / 2) * 1) / (u * u)"
    by (rule DERIV_add [OF DERIV_gauss_int q])
  moreover have "exp (- (u\<^sup>2) / 2)
             + (exp (- (u\<^sup>2) / 2) * (- u) * u - exp (- (u\<^sup>2) / 2) * 1) / (u * u)
           = - (exp (- (u\<^sup>2) / 2) / u\<^sup>2)"
    using assms by (simp add: field_simps power2_eq_square)
  ultimately show ?thesis by simp
qed

lemma gauss_tail_mono:
  assumes "0 < x" and "x \<le> t"
  shows "gauss_int t + exp (- (t\<^sup>2) / 2) / t \<le> gauss_int x + exp (- (x\<^sup>2) / 2) / x"
proof (rule DERIV_nonpos_imp_nonincreasing [of x t "\<lambda>u. gauss_int u + exp (- (u\<^sup>2) / 2) / u"])
  show "x \<le> t" by fact
  fix u assume "x \<le> u" "u \<le> t"
  with assms(1) have "u \<noteq> 0" by simp
  then have "DERIV (\<lambda>u. gauss_int u + exp (- (u\<^sup>2) / 2) / u) u :> - (exp (- (u\<^sup>2) / 2) / u\<^sup>2)"
    by (rule DERIV_gauss_tail)
  moreover have "- (exp (- (u\<^sup>2) / 2) / u\<^sup>2) \<le> 0" by simp
  ultimately show "\<exists>y. DERIV (\<lambda>u. gauss_int u + exp (- (u\<^sup>2) / 2) / u) u :> y \<and> y \<le> 0"
    by blast
qed

lemma gauss_tail:
  assumes "0 < x"
  shows "sqrt (pi / 2) \<le> gauss_int x + exp (- (x\<^sup>2) / 2) / x"
proof -
  define B where "B = gauss_int x + exp (- (x\<^sup>2) / 2) / x"
  have g: "0 \<le> gauss_int x" using assms by (intro gauss_int_nonneg) simp
  have "0 < exp (- (x\<^sup>2) / 2) / x" using assms by simp
  with g have B: "0 < B" by (simp add: B_def)
  have "pi / 2 \<le> B\<^sup>2"
  proof (rule field_le_epsilon)
    fix e :: real assume e: "0 < e"
    obtain n where n: "max (x\<^sup>2) (pi / 2 / e) < real n" using reals_Archimedean2 by blast
    have n1: "x\<^sup>2 < real n"
      by (rule le_less_trans [OF max.cobounded1 n])
    have n2: "pi / 2 / e < real n"
      by (rule le_less_trans [OF max.cobounded2 n])
    from n2 have n3: "pi / 2 / e < real (Suc n)" by simp
    have "0 < real (Suc n)" by simp
    with e have small: "pi / 2 / real (Suc n) < e" using n3 by (rule div_less_swap)
    define c where "c = sqrt (2 * real n)"
    from n1 have "x\<^sup>2 \<le> 2 * real n" by linarith
    then have xs: "x \<le> c" unfolding c_def by (rule real_le_rsqrt)
    with assms have spos: "0 < c" by (rule less_le_trans)
    then have "0 \<le> exp (- (c\<^sup>2) / 2) / c" by simp
    then have "gauss_int c \<le> gauss_int c + exp (- (c\<^sup>2) / 2) / c" by linarith
    also have "\<dots> \<le> B" unfolding B_def using assms xs by (rule gauss_tail_mono)
    finally have cB: "gauss_int c \<le> B" .
    have c0: "0 \<le> gauss_int c" using spos by (intro gauss_int_nonneg) simp
    from cB c0 have "(gauss_int c)\<^sup>2 \<le> B\<^sup>2" by (rule power_mono)
    with gauss_int_sqrt_lower [of n] have "pi / 2 - pi / 2 / real (Suc n) \<le> B\<^sup>2"
      unfolding c_def by (rule order_trans)
    with small show "pi / 2 \<le> B\<^sup>2 + e" by linarith
  qed
  then have "sqrt (pi / 2) \<le> sqrt (B\<^sup>2)" by (simp only: real_sqrt_le_iff)
  also have "sqrt (B\<^sup>2) = B" using B by (simp only: real_sqrt_abs abs_of_pos)
  finally show ?thesis unfolding B_def .
qed

lemma sqrt_half_pi: "sqrt (pi / 2) = sqrt (2 * pi) / 2"
proof -
  have "sqrt (pi / 2) = sqrt (2 * pi / 4)" by simp
  also have "\<dots> = sqrt (2 * pi) / sqrt 4" by (rule real_sqrt_divide)
  also have "sqrt 4 = (2 :: real)" using real_sqrt_abs [of 2] by simp
  finally show ?thesis .
qed

lemma norm_cdf_le_1: "norm_cdf x \<le> 1"
proof -
  have "gauss_int x / sqrt (2 * pi) \<le> (sqrt (2 * pi) / 2) / sqrt (2 * pi)"
    using gauss_int_le_sqrt [of x] unfolding sqrt_half_pi by (intro divide_right_mono) simp_all
  also have "\<dots> = 1 / 2" by simp
  finally have "gauss_int x / sqrt (2 * pi) \<le> 1 / 2" .
  then show ?thesis unfolding norm_cdf_def by linarith
qed

lemma norm_cdf_ge_0: "0 \<le> norm_cdf x"
  using norm_cdf_le_1 [of "- x"] by (simp add: norm_cdf_minus)

lemma norm_cdf_tail:
  assumes "0 < x"
  shows "1 - exp (- (x\<^sup>2) / 2) / (x * sqrt (2 * pi)) \<le> norm_cdf x"
proof -
  have s: "0 < sqrt (2 * pi)" by simp
  from gauss_tail [OF assms]
  have "sqrt (2 * pi) / 2 - exp (- (x\<^sup>2) / 2) / x \<le> gauss_int x"
    unfolding sqrt_half_pi by simp
  then have "(sqrt (2 * pi) / 2 - exp (- (x\<^sup>2) / 2) / x) / sqrt (2 * pi)
               \<le> gauss_int x / sqrt (2 * pi)"
    using s by (intro divide_right_mono) simp_all
  moreover have "(sqrt (2 * pi) / 2 - exp (- (x\<^sup>2) / 2) / x) / sqrt (2 * pi)
                   = 1 / 2 - exp (- (x\<^sup>2) / 2) / (x * sqrt (2 * pi))"
    using s by (simp add: diff_divide_distrib)
  ultimately show ?thesis unfolding norm_cdf_def by linarith
qed

section \<open>Rounding to binary64\<close>

text \<open>
  The relative error of \<open>round64\<close> is at most \<open>2^-53\<close>; the bounds below use one percent,
  which is all the price deep in the money needs. Every real in \<open>[1 - 2^-54, 1]\<close> rounds to
  1, and the distribution function is in this interval from 9 on.
\<close>

lemma round_even_error: "\<bar>of_int (round_even y) - y\<bar> \<le> 1 / 2"
proof -
  have "of_int \<lfloor>y\<rfloor> \<le> y" "y < of_int \<lfloor>y\<rfloor> + 1" by linarith+
  then show ?thesis
    by (auto simp: round_even_def Let_def)
qed

lemma two_powi_le_abs:
  fixes x :: real
  assumes "x \<noteq> 0"
  shows "2 powi \<lfloor>log 2 \<bar>x\<bar>\<rfloor> \<le> \<bar>x\<bar>"
proof -
  have "of_int \<lfloor>log 2 \<bar>x\<bar>\<rfloor> \<le> log 2 \<bar>x\<bar>" by linarith
  then have "2 powr of_int \<lfloor>log 2 \<bar>x\<bar>\<rfloor> \<le> \<bar>x\<bar>"
    using assms by (subst (asm) le_log_iff) simp_all
  then show ?thesis by (simp add: powr_real_of_int')
qed

lemma round64_error:
  "\<bar>round64 x - x\<bar> \<le> \<bar>x\<bar> / 2 ^ 53"
proof (cases "x = 0")
  case True
  then show ?thesis by (simp add: round64_def)
next
  case False
  define e0 where "e0 = \<lfloor>log 2 \<bar>x\<bar>\<rfloor>"
  define p where "p = (2 :: real) powi (e0 - 52)"
  have p: "0 < p" by (simp add: p_def)
  have r: "round64 x = of_int (round_even (x / p)) * p"
    using False by (simp add: round64_def Let_def e0_def p_def)
  have "\<bar>of_int (round_even (x / p)) - x / p\<bar> * p \<le> 1 / 2 * p"
    by (intro mult_right_mono round_even_error) (use p in simp)
  moreover have "\<bar>of_int (round_even (x / p)) - x / p\<bar> * p = \<bar>round64 x - x\<bar>"
  proof -
    have "\<bar>of_int (round_even (x / p)) - x / p\<bar> * p
            = \<bar>(of_int (round_even (x / p)) - x / p) * p\<bar>"
      using p by (simp add: abs_mult)
    also have "(of_int (round_even (x / p)) - x / p) * p = round64 x - x"
      using p by (simp add: r algebra_simps)
    finally show ?thesis .
  qed
  moreover have "1 / 2 * p = 2 powi e0 / 2 ^ 53"
  proof -
    have "p = 2 powi e0 / 2 powi 52" unfolding p_def by (rule power_int_diff) simp
    then show ?thesis by simp
  qed
  moreover have "2 powi e0 / 2 ^ 53 \<le> \<bar>x\<bar> / 2 ^ 53"
    unfolding e0_def by (intro divide_right_mono two_powi_le_abs False) simp
  ultimately show ?thesis by simp
qed

lemma round64_ge:
  assumes "0 \<le> a" and "a \<le> x"
  shows "a * (99 / 100) \<le> round64 x"
proof -
  from assms have x: "0 \<le> x" by simp
  define u where "u = x / 2 ^ 53"
  from x have "\<bar>x\<bar> = x" by simp
  with round64_error [of x] have "\<bar>round64 x - x\<bar> \<le> u" unfolding u_def by (simp only:)
  then have "x - u \<le> round64 x" by linarith
  moreover have "u \<le> x / 100" unfolding u_def using x by (intro divide_left_mono) simp_all
  then have "x * (99 / 100) \<le> x - u" by linarith
  moreover have "a * (99 / 100) \<le> x * (99 / 100)" using assms(2) by simp
  ultimately show ?thesis by linarith
qed

lemma round64_le:
  assumes "0 \<le> x" and "x \<le> b"
  shows "round64 x \<le> b * (101 / 100)"
proof -
  define u where "u = x / 2 ^ 53"
  from assms(1) have "\<bar>x\<bar> = x" by simp
  with round64_error [of x] have "\<bar>round64 x - x\<bar> \<le> u" unfolding u_def by (simp only:)
  then have "round64 x \<le> x + u" by linarith
  moreover have "u \<le> x / 100" unfolding u_def using assms(1) by (intro divide_left_mono) simp_all
  then have "x + u \<le> x * (101 / 100)" by linarith
  moreover have "x * (101 / 100) \<le> b * (101 / 100)" using assms(2) by simp
  ultimately show ?thesis by linarith
qed

lemma round64_nonneg: "0 \<le> x \<Longrightarrow> 0 \<le> round64 x"
  using round64_ge [of 0 x] by simp

lemma floor_log2_eq:
  fixes x :: real
  assumes "2 powi k \<le> x" and "x < 2 powi (k + 1)"
  shows "\<lfloor>log 2 x\<rfloor> = k"
proof (rule floor_unique)
  have "(0 :: real) < 2 powi k" by simp
  with assms(1) have x: "0 < x" by linarith
  have "2 powr of_int k \<le> x" using assms(1) by (simp add: powr_real_of_int')
  then show "of_int k \<le> log 2 x" using x by (subst le_log_iff) simp_all
  have "(2 :: real) powr of_int (k + 1) = 2 powi (k + 1)"
    by (rule powr_real_of_int') simp_all
  with assms(2) have "x < 2 powr of_int (k + 1)" by (simp only:)
  then have "log 2 x < of_int (k + 1)" using x by (subst log_less_iff) simp_all
  then show "log 2 x < of_int k + 1" by simp
qed

lemma round_even_up:
  assumes "of_int n - 1 / 2 \<le> y" and "y < of_int n" and "even n"
  shows "round_even y = n"
proof -
  have f: "\<lfloor>y\<rfloor> = n - 1"
  proof (rule floor_unique)
    show "of_int (n - 1) \<le> y" using assms(1) by simp
    show "y < of_int (n - 1) + 1" using assms(2) by simp
  qed
  from assms(3) have odd: "odd (n - 1)" by simp
  have d: "1 / 2 \<le> y - of_int (n - 1)" using assms(1) by simp
  show ?thesis
    unfolding round_even_def f Let_def using d odd by auto
qed

lemma round64_one: "round64 1 = 1"
proof -
  have "\<lfloor>log 2 \<bar>1 :: real\<bar>\<rfloor> = 0" by simp
  then have "round64 1 = of_int (round_even (1 / 2 powi (- 52))) * 2 powi (- 52)"
    by (simp add: round64_def)
  also have "(1 :: real) / 2 powi (- 52) = of_int (2 ^ 52)" by (simp add: power_int_minus)
  also have "round_even (of_int (2 ^ 52)) = 2 ^ 52" by (simp add: round_even_def)
  finally show ?thesis by (simp add: power_int_minus)
qed

lemma round64_saturates:
  assumes "1 - 1 / 2 ^ 54 \<le> x" and "x \<le> 1"
  shows "round64 x = 1"
proof (cases "x = 1")
  case True
  then show ?thesis by (simp add: round64_one)
next
  case False
  with assms(2) have x1: "x < 1" by simp
  have "(1 :: real) / 2 \<le> 1 - 1 / 2 ^ 54" by simp
  with assms(1) have xh: "1 / 2 \<le> x" by linarith
  then have x0: "0 < x" by simp
  have "\<lfloor>log 2 x\<rfloor> = - 1"
    by (rule floor_log2_eq) (use xh x1 in \<open>simp_all add: power_int_minus\<close>)
  with x0 have r: "round64 x = of_int (round_even (x / 2 powi (- 53))) * 2 powi (- 53)"
    by (simp add: round64_def)
  have y: "x / 2 powi (- 53) = x * 2 ^ 53" by (simp add: power_int_minus)
  have "round_even (x * 2 ^ 53) = 2 ^ 53"
  proof (rule round_even_up)
    have "(1 - 1 / 2 ^ 54) * 2 ^ 53 \<le> x * 2 ^ 53"
      using assms(1) by (rule mult_right_mono) simp
    then show "of_int (2 ^ 53) - 1 / 2 \<le> x * 2 ^ 53" by simp
    have "x * 2 ^ 53 < 1 * 2 ^ 53" using x1 by (rule mult_strict_right_mono) simp
    then show "x * 2 ^ 53 < of_int (2 ^ 53)" by simp
    show "even (2 ^ 53 :: int)" by simp
  qed
  then show ?thesis unfolding r y by (simp add: power_int_minus)
qed

lemma two_le_exp_three_quarters: "2 \<le> exp (3 / 4 :: real)"
proof -
  have "(2 :: real) \<le> (1 + 3 / 32) ^ 8" by (simp add: eval_nat_numeral)
  also have "\<dots> \<le> exp (3 / 32) ^ 8"
    by (intro power_mono exp_ge_add_one_self) simp
  also have "\<dots> = exp (real 8 * (3 / 32))" by (simp only: exp_of_nat_mult)
  also have "real 8 * (3 / 32) = 3 / 4" by simp
  finally show ?thesis .
qed

lemma exp_minus_81_2: "exp (- (81 / 2) :: real) \<le> 1 / 2 ^ 54"
proof -
  have "(2 :: real) ^ 54 \<le> exp (3 / 4) ^ 54"
    by (intro power_mono two_le_exp_three_quarters) simp
  also have "\<dots> = exp (real 54 * (3 / 4))" by (simp only: exp_of_nat_mult)
  also have "real 54 * (3 / 4) = 81 / 2" by simp
  finally have "(2 :: real) ^ 54 \<le> exp (81 / 2)" .
  then have "inverse (exp (81 / 2 :: real)) \<le> inverse (2 ^ 54)"
    by (intro le_imp_inverse_le) simp_all
  then show ?thesis by (simp add: exp_minus inverse_eq_divide)
qed

lemma norm_cdf_saturates:
  assumes "9 \<le> d"
  shows "round64 (norm_cdf d) = 1"
proof (rule round64_saturates)
  show "norm_cdf d \<le> 1" by (rule norm_cdf_le_1)
  from assms have d: "0 < d" by simp
  have "81 \<le> d\<^sup>2" using assms power_mono [of 9 d 2] by simp
  then have "- (d\<^sup>2) / 2 \<le> - (81 / 2)" by simp
  then have "exp (- (d\<^sup>2) / 2) \<le> exp (- (81 / 2))" by (simp only: exp_le_cancel_iff)
  then have e: "exp (- (d\<^sup>2) / 2) \<le> 1 / 2 ^ 54" using exp_minus_81_2 by (rule order_trans)
  have "1 \<le> sqrt (2 * pi)" using pi_ge_two by (intro real_le_rsqrt) simp
  then have "1 * 1 \<le> d * sqrt (2 * pi)" using assms by (intro mult_mono) simp_all
  then have s: "1 \<le> d * sqrt (2 * pi)" by simp
  have "exp (- (d\<^sup>2) / 2) / (d * sqrt (2 * pi)) \<le> (1 / 2 ^ 54) / 1"
    using e s by (intro frac_le) simp_all
  then have "1 - 1 / 2 ^ 54 \<le> 1 - exp (- (d\<^sup>2) / 2) / (d * sqrt (2 * pi))" by simp
  also have "\<dots> \<le> norm_cdf d" using d by (rule norm_cdf_tail)
  finally show "1 - 1 / 2 ^ 54 \<le> norm_cdf d" .
qed

text \<open>
  Deep in the money (the strike at most half the spot) and at a volatility of at most
  \<open>1 / 32\<close>, with at most a year to expiration and \<open>q \<le> r\<close>, the floats \<^verbatim>\<open>d1\<close> and
  \<^verbatim>\<open>d2\<close> are above 9, both values of \<^verbatim>\<open>norm.cdf\<close> are the float 1.0, and the price that
  \<^verbatim>\<open>option_price\<close> returns does not depend on the volatility.
\<close>

lemma round64_pos:
  assumes "0 < x"
  shows "0 < round64 x"
proof -
  have "x * (99 / 100) \<le> round64 x" using assms by (intro round64_ge) simp_all
  moreover have "0 < x * (99 / 100)" using assms by simp
  ultimately show ?thesis by linarith
qed

lemma ln_ge_three_fifths:
  fixes a :: real
  assumes "198 / 100 \<le> a"
  shows "3 / 5 \<le> ln a"
proof -
  have "exp (3 / 5 :: real) \<le> 1 + 3 / 5 + (3 / 5)\<^sup>2" by (rule exp_bound) simp_all
  also have "\<dots> \<le> 198 / 100" by (simp add: power2_eq_square)
  also have "\<dots> \<le> a" by fact
  finally have "exp (3 / 5) \<le> a" .
  moreover from assms have "0 < a" by simp
  ultimately show ?thesis by (simp only: ln_ge_iff)
qed

lemma f64_d_bounds:
  fixes S K T r sigma q :: real
  assumes "0 < K" and "2 * K \<le> S" and "0 < T" and "T \<le> 1" and "q \<le> r"
    and "0 < sigma" and "sigma \<le> 1 / 32"
  defines "den \<equiv> round64 (sigma * round64 (sqrt T))"
  defines "d1 \<equiv> round64 (round64 (round64 (ln (round64 (S / K)))
                     + round64 (round64 (round64 (r - q) + round64 (0.5 * round64 (sigma\<^sup>2))) * T))
                   / den)"
  shows "9 \<le> d1" and "9 \<le> round64 (d1 - den)"
proof -
  have "2 \<le> S / K" using assms(1,2) by (simp add: pos_le_divide_eq)
  then have "2 * (99 / 100) \<le> round64 (S / K)" by (intro round64_ge) simp_all
  then have "3 / 5 \<le> ln (round64 (S / K))" by (intro ln_ge_three_fifths) simp
  then have a2: "3 / 5 * (99 / 100) \<le> round64 (ln (round64 (S / K)))"
    by (intro round64_ge) simp_all
  have b1: "0 \<le> round64 (r - q)" using assms(5) by (intro round64_nonneg) simp
  have "0 \<le> round64 (sigma\<^sup>2)" by (intro round64_nonneg) simp
  then have b2: "0 \<le> round64 (0.5 * round64 (sigma\<^sup>2))" by (intro round64_nonneg) simp
  from b1 b2 have b3: "0 \<le> round64 (round64 (r - q) + round64 (0.5 * round64 (sigma\<^sup>2)))"
    by (intro round64_nonneg) simp
  have b4: "0 \<le> round64 (round64 (round64 (r - q) + round64 (0.5 * round64 (sigma\<^sup>2))) * T)"
  proof (rule round64_nonneg)
    from assms(3) have "0 \<le> T" by simp
    with b3 show "0 \<le> round64 (round64 (r - q) + round64 (0.5 * round64 (sigma\<^sup>2))) * T"
      by (rule mult_nonneg_nonneg)
  qed
  define num where "num = round64 (round64 (ln (round64 (S / K)))
                     + round64 (round64 (round64 (r - q) + round64 (0.5 * round64 (sigma\<^sup>2))) * T))"
  have "3 / 5 * (99 / 100) * (99 / 100) \<le> num"
    unfolding num_def using a2 b4 by (intro round64_ge) simp_all
  then have num: "1 / 2 \<le> num" by simp
  have sT: "0 < sqrt T" "sqrt T \<le> 1" using assms(3,4) by simp_all
  have c1p: "0 < round64 (sqrt T)" using sT(1) by (rule round64_pos)
  have c1u: "round64 (sqrt T) \<le> 1 * (101 / 100)" using sT by (intro round64_le) simp_all
  have prod_pos: "0 < sigma * round64 (sqrt T)" using assms(6) c1p by simp
  have "sigma * round64 (sqrt T) \<le> 1 / 32 * (1 * (101 / 100))"
    using assms(7) c1u c1p assms(6) by (intro mult_mono) simp_all
  then have "den \<le> 1 / 32 * (1 * (101 / 100)) * (101 / 100)"
    unfolding den_def using prod_pos by (intro round64_le) simp_all
  then have den_le: "den \<le> 1 / 30" by simp
  have den_pos: "0 < den" unfolding den_def using prod_pos by (rule round64_pos)
  have "(1 / 2) / (1 / 30) \<le> num / den"
    using num den_pos den_le by (intro frac_le) simp_all
  then have q: "15 \<le> num / den" by simp
  have "15 * (99 / 100) \<le> round64 (num / den)" using q by (intro round64_ge) simp_all
  then have d1: "14 \<le> d1" unfolding d1_def num_def by simp
  then show "9 \<le> d1" by simp
  from d1 den_le have "13 \<le> d1 - den" by simp
  then have "13 * (99 / 100) \<le> round64 (d1 - den)" by (intro round64_ge) simp_all
  then show "9 \<le> round64 (d1 - den)" by simp
qed

lemma option_price_f64_call:
  assumes "K \<noteq> 0" and "sigma\<^sup>2 < 2 ^ 1024 - 2 ^ 970"
  shows "option_price_f64 S K T r sigma q ''c'' =
    Inr (round64 (round64 (round64 (S * round64 (exp (round64 (- q * T))))
            * round64 (norm_cdf (round64 (round64 (round64 (ln (round64 (S / K)))
                     + round64 (round64 (round64 (r - q) + round64 (0.5 * round64 (sigma\<^sup>2))) * T))
                   / round64 (sigma * round64 (sqrt T))))))
          - round64 (round64 (K * round64 (exp (round64 (- r * T))))
            * round64 (norm_cdf (round64 (round64 (round64 (round64 (ln (round64 (S / K)))
                     + round64 (round64 (round64 (r - q) + round64 (0.5 * round64 (sigma\<^sup>2))) * T))
                   / round64 (sigma * round64 (sqrt T)))
                - round64 (sigma * round64 (sqrt T))))))))"
  using assms by (simp add: option_price_f64_def py_pow2_def Let_def)

lemma option_price_f64_saturated:
  fixes S K T r sigma q :: real
  assumes "0 < K" and "2 * K \<le> S" and "0 < T" and "T \<le> 1" and "q \<le> r"
    and "0 < sigma" and "sigma \<le> 1 / 32"
  shows "option_price_f64 S K T r sigma q ''c'' =
    Inr (round64 (round64 (round64 (S * round64 (exp (round64 (- q * T)))) * 1)
          - round64 (round64 (K * round64 (exp (round64 (- r * T)))) * 1)))"
proof -
  from assms(1) have K: "K \<noteq> 0" by simp
  have "sigma\<^sup>2 \<le> (1 / 32)\<^sup>2" using assms(6,7) by (intro power_mono) simp_all
  also have "\<dots> < 2 ^ 1024 - 2 ^ 970" by (simp add: power2_eq_square)
  finally have range: "sigma\<^sup>2 < 2 ^ 1024 - 2 ^ 970" .
  note d = f64_d_bounds [OF assms]
  show ?thesis
    unfolding option_price_f64_call [OF K range]
      norm_cdf_saturates [OF d(1)] norm_cdf_saturates [OF d(2)] ..
qed

lemma round64_decimal_bounds:
  "0 < round64 (1 / 100)" "round64 (1 / 100) < round64 (2 / 100)" "round64 (2 / 100) \<le> 1 / 32"
  "0 \<le> round64 (5 / 100)"
proof -
  have a: "1 / 100 * (99 / 100) \<le> round64 (1 / 100)" by (intro round64_ge) simp_all
  have b: "round64 (1 / 100) \<le> 1 / 100 * (101 / 100)" by (intro round64_le) simp_all
  have c: "2 / 100 * (99 / 100) \<le> round64 (2 / 100)" by (intro round64_ge) simp_all
  have d: "round64 (2 / 100) \<le> 2 / 100 * (101 / 100)" by (intro round64_le) simp_all
  from a show "0 < round64 (1 / 100)" by simp
  from b c show "round64 (1 / 100) < round64 (2 / 100)" by simp
  from d show "round64 (2 / 100) \<le> 1 / 32" by simp
  show "0 \<le> round64 (5 / 100)" by (intro round64_nonneg) simp
qed

section \<open>The degenerate inputs\<close>

text \<open>
  Claim C2. When the time to expiration or the market price is zero or negative,
  \<^verbatim>\<open>implied_volatility\<close> returns \<^verbatim>\<open>np.nan\<close> whatever the root finder and the pricer would do:
  the result is the same for every root finder, so neither is called. In particular this is
  the result for \<open>T = 0\<close> with market price 5, and for the market prices 0 and \<open>-1\<close>.
\<close>

theorem implied_volatility_degenerate:
  "T \<le> 0 \<or> market_price \<le> 0 \<Longrightarrow>
     implied_volatility brentq S K T r q market_price option_type tol max_iter = Inr NaN"
  by (simp add: implied_volatility_def)

theorem implied_volatility_degenerate_witness:
  "implied_volatility brentq_spec 100 100 0 (4 / 100) (1 / 100) 5 ''c'' (1 / 10 ^ 6) 100 = Inr NaN
   \<and> implied_volatility brentq_spec 100 100 1 (4 / 100) (1 / 100) 0 ''c'' (1 / 10 ^ 6) 100 = Inr NaN
   \<and> implied_volatility brentq_spec 100 100 1 (4 / 100) (1 / 100) (- 1) ''c'' (1 / 10 ^ 6) 100 = Inr NaN"
  using implied_volatility_degenerate [of 0 5 brentq_spec 100 100 "4 / 100" "1 / 100" "''c''" "1 / 10 ^ 6" 100]
    implied_volatility_degenerate [of 1 0 brentq_spec 100 100 "4 / 100" "1 / 100" "''c''" "1 / 10 ^ 6" 100]
    implied_volatility_degenerate [of 1 "- 1" brentq_spec 100 100 "4 / 100" "1 / 100" "''c''" "1 / 10 ^ 6" 100]
  by simp

section \<open>The pricer computes the Black-Scholes-Merton formula\<close>



section \<open>An option type that is neither call nor put\<close>

text \<open>
  Claim C5, as stated, fails: \<^verbatim>\<open>option_price\<close> does not raise the invalid-argument error
  for every input with an unknown option type. \<^verbatim>\<open>d1\<close> is computed before the option type is
  looked at, and for a volatility whose square is out of the range of the floats, as the
  float \<open>2^600\<close> (about \<^verbatim>\<open>4.1e180\<close>), the power \<^verbatim>\<open>sigma**2\<close> raises \<^verbatim>\<open>OverflowError\<close>
  first. The other arguments are those of an ordinary quote, and all the preconditions of the
  pricer hold (spot, strike, time and volatility are positive).
\<close>

theorem option_price_overflow_counterexample:
  "option_price_f64 100 100 1 (1 / 16) (2 ^ 600) 0 ''x'' = Inl OverflowError \<and>
   option_price_f64 100 100 1 (1 / 16) (2 ^ 600) 0 ''x'' \<noteq> Inl ValueError"
  by (simp add: option_price_f64_def py_pow2_def)

text \<open>
  Claim C5, amended. For every input with a positive strike, as the data model has it, and a
  volatility whose square is in the range of the floats, an option type that is neither
  \<^verbatim>\<open>"c"\<close> nor \<^verbatim>\<open>"p"\<close> makes \<^verbatim>\<open>option_price\<close> raise \<^verbatim>\<open>ValueError\<close>; it returns no
  number. This holds in binary64 and in exact arithmetic.
\<close>

theorem option_price_invalid_option_type:
  "option_type \<noteq> ''c'' \<Longrightarrow> option_type \<noteq> ''p'' \<Longrightarrow> 0 < K \<Longrightarrow> sigma\<^sup>2 < 2 ^ 1024 - 2 ^ 970 \<Longrightarrow>
     option_price_f64 S K T r sigma q option_type = Inl ValueError \<and>
     option_price S K T r sigma q option_type = Inl ValueError"
  by (simp add: option_price_f64_def option_price_def py_pow2_def Let_def)

theorem option_price_invalid_option_type_witness:
  "option_price_f64 100 100 1 (1 / 16) (1 / 4) 0 ''x'' = Inl ValueError \<and>
   option_price 100 100 1 (1 / 16) (1 / 4) 0 ''x'' = Inl ValueError"
  by (rule option_price_invalid_option_type) (simp_all add: power2_eq_square)

text \<open>
  Claim C10. For every input with \<open>T > 0\<close>, a positive market price, a positive strike, as
  the data model has it, and an option type that is neither \<^verbatim>\<open>"c"\<close> nor \<^verbatim>\<open>"p"\<close>, the
  target function raises the pricer's \<^verbatim>\<open>ValueError\<close> at the lower end of the bracket, and
  \<^verbatim>\<open>implied_volatility\<close> returns \<^verbatim>\<open>np.nan\<close>, as it does for a numerical failure: the
  \<^verbatim>\<open>except\<close> clause absorbs the error. The root finder is a parameter: all that is used
  of \<^verbatim>\<open>brentq\<close> is that it evaluates its callback at the lower end of the bracket and lets
  the callback's \<^verbatim>\<open>ValueError\<close> through.
\<close>

theorem implied_volatility_absorbs_invalid_option_type:
  assumes "0 < T" and "0 < market_price"
    and "option_type \<noteq> ''c''" and "option_type \<noteq> ''p''" and "0 < K"
    and "\<And>f a b xtol maxiter. f a = Inl ValueError \<Longrightarrow> brentq f a b xtol maxiter = Inl ValueError"
  shows "target_fn S K T r q market_price option_type (1 / 10 ^ 6) = Inl ValueError \<and>
     implied_volatility brentq S K T r q market_price option_type tol max_iter = Inr NaN"
proof -
  have t: "target_fn S K T r q market_price option_type (1 / 10 ^ 6) = Inl ValueError"
    using assms(3-5) by (simp add: target_fn_def option_price_def Let_def)
  have "brentq (target_fn S K T r q market_price option_type) (1 / 10 ^ 6) 200 tol max_iter
          = Inl ValueError"
    using t by (rule assms(6))
  with assms(1,2) t show ?thesis by (simp add: implied_volatility_def)
qed

theorem implied_volatility_absorbs_invalid_option_type_witness:
  "target_fn 100 100 1 (4 / 100) (1 / 100) 5 ''x'' (1 / 10 ^ 6) = Inl ValueError \<and>
   implied_volatility brentq_spec 100 100 1 (4 / 100) (1 / 100) 5 ''x'' (1 / 10 ^ 6) 100 = Inr NaN"
  using implied_volatility_absorbs_invalid_option_type
    [of 1 5 "''x''" 100 brentq_spec 100 "4 / 100" "1 / 100" "1 / 10 ^ 6" 100]
    brentq_spec_propagates
  by simp

section \<open>The kind of value the solver returns\<close>




section \<open>Put-call parity\<close>



section \<open>Monotonicity of the call price in the volatility\<close>

text \<open>
  Claim C7, as stated, fails: the price that \<^verbatim>\<open>option_price\<close> returns is a float, and it is
  not strictly increasing in the volatility. For spot 100, strike 50, one year, rate
  \<^verbatim>\<open>0.05\<close> and no dividend, the volatilities \<^verbatim>\<open>0.01\<close> and \<^verbatim>\<open>0.02\<close> give the same
  price: both values of \<^verbatim>\<open>norm.cdf\<close> are the float 1.0 at both volatilities, and nothing
  else in the returned expression depends on the volatility. (The decimal literals are the
  floats nearest to them.)
\<close>

theorem call_price_flat_counterexample:
  "0 < round64 (1 / 100) \<and> round64 (1 / 100) < round64 (2 / 100) \<and>
   option_price_f64 100 50 1 (round64 (5 / 100)) (round64 (1 / 100)) 0 ''c''
     = Inr (round64 (round64 (round64 (100 * round64 (exp (round64 (- 0 * 1)))) * 1)
              - round64 (round64 (50 * round64 (exp (round64 (- round64 (5 / 100) * 1)))) * 1))) \<and>
   option_price_f64 100 50 1 (round64 (5 / 100)) (round64 (2 / 100)) 0 ''c''
     = Inr (round64 (round64 (round64 (100 * round64 (exp (round64 (- 0 * 1)))) * 1)
              - round64 (round64 (50 * round64 (exp (round64 (- round64 (5 / 100) * 1)))) * 1)))"
proof (intro conjI)
  show "0 < round64 (1 / 100)" by (rule round64_decimal_bounds)
  show "round64 (1 / 100) < round64 (2 / 100)" by (rule round64_decimal_bounds)
  have s1: "round64 (1 / 100) \<le> 1 / 32"
    using round64_decimal_bounds(2,3) by linarith
  have s2: "0 < round64 (2 / 100)"
    using round64_decimal_bounds(1,2) by linarith
  show "option_price_f64 100 50 1 (round64 (5 / 100)) (round64 (1 / 100)) 0 ''c''
     = Inr (round64 (round64 (round64 (100 * round64 (exp (round64 (- 0 * 1)))) * 1)
              - round64 (round64 (50 * round64 (exp (round64 (- round64 (5 / 100) * 1)))) * 1)))"
  proof (rule option_price_f64_saturated)
    show "(0 :: real) < 50" "2 * 50 \<le> (100 :: real)" "(0 :: real) < 1" "(1 :: real) \<le> 1"
      by simp_all
    show "0 \<le> round64 (5 / 100)" by (rule round64_decimal_bounds)
    show "0 < round64 (1 / 100)" by (rule round64_decimal_bounds)
    show "round64 (1 / 100) \<le> 1 / 32" by (rule s1)
  qed
  show "option_price_f64 100 50 1 (round64 (5 / 100)) (round64 (2 / 100)) 0 ''c''
     = Inr (round64 (round64 (round64 (100 * round64 (exp (round64 (- 0 * 1)))) * 1)
              - round64 (round64 (50 * round64 (exp (round64 (- round64 (5 / 100) * 1)))) * 1)))"
  proof (rule option_price_f64_saturated)
    show "(0 :: real) < 50" "2 * 50 \<le> (100 :: real)" "(0 :: real) < 1" "(1 :: real) \<le> 1"
      by simp_all
    show "0 \<le> round64 (5 / 100)" by (rule round64_decimal_bounds)
    show "0 < round64 (2 / 100)" by (rule s2)
    show "round64 (2 / 100) \<le> 1 / 32" by (rule round64_decimal_bounds)
  qed
qed

text \<open>
  Claim C7, amended. For a fixed positive spot, strike and time to expiration and any rates,
  the call price is strictly increasing in the volatility on the positive volatilities in
  exact arithmetic. In binary64 it is not: for a strike of at most half the spot, at most a
  year to expiration, \<open>0 \<le> q \<le> r\<close> and volatilities up to \<open>1 / 32\<close> the price computed
  does not depend on the volatility.
\<close>

theorem call_price_strictly_increasing:
  assumes "0 < S" and "0 < K" and "0 < T" and "0 < sigma1" and "sigma1 < sigma2"
  shows "(\<exists>c1 c2. option_price S K T r sigma1 q ''c'' = Inr c1 \<and>
            option_price S K T r sigma2 q ''c'' = Inr c2 \<and> c1 < c2) \<and>
         (2 * K \<le> S \<and> T \<le> 1 \<and> 0 \<le> q \<and> q \<le> r \<and> sigma2 \<le> 1 / 32 \<longrightarrow>
            option_price_f64 S K T r sigma1 q ''c'' = option_price_f64 S K T r sigma2 q ''c'')"
proof (intro conjI impI)
  from assms(2) have K: "K \<noteq> 0" by simp
  from option_price_call [OF K] bsm_call_strict_mono [OF assms]
  show "\<exists>c1 c2. option_price S K T r sigma1 q ''c'' = Inr c1 \<and>
            option_price S K T r sigma2 q ''c'' = Inr c2 \<and> c1 < c2"
    by blast
next
  assume h: "2 * K \<le> S \<and> T \<le> 1 \<and> 0 \<le> q \<and> q \<le> r \<and> sigma2 \<le> 1 / 32"
  then have h1: "2 * K \<le> S" and h2: "T \<le> 1" and h3: "q \<le> r" and h4: "sigma2 \<le> 1 / 32"
    by simp_all
  from assms(4,5) have s2: "0 < sigma2" by simp
  from assms(5) h4 have s1: "sigma1 \<le> 1 / 32" by simp
  show "option_price_f64 S K T r sigma1 q ''c'' = option_price_f64 S K T r sigma2 q ''c''"
    unfolding option_price_f64_saturated [OF assms(2) h1 assms(3) h2 h3 assms(4) s1]
      option_price_f64_saturated [OF assms(2) h1 assms(3) h2 h3 s2 h4] ..
qed

theorem call_price_strictly_increasing_witness:
  "(\<exists>c1 c2. option_price 100 50 1 (1 / 16) (1 / 128) 0 ''c'' = Inr c1 \<and>
      option_price 100 50 1 (1 / 16) (1 / 64) 0 ''c'' = Inr c2 \<and> c1 < c2) \<and>
   option_price_f64 100 50 1 (1 / 16) (1 / 128) 0 ''c''
     = option_price_f64 100 50 1 (1 / 16) (1 / 64) 0 ''c''"
  using call_price_strictly_increasing [of 100 50 1 "1 / 128" "1 / 64" "1 / 16" 0] by simp

section \<open>Numerical failures of the root search\<close>

text \<open>
  Claim C3. For a positive time to expiration and market price: when the target function has
  the same strict sign at both ends of the bracket \<open>[1e-6, 200]\<close>, or when the root finder
  reports that it did not converge within \<^verbatim>\<open>max_iter\<close> iterations, \<^verbatim>\<open>implied_volatility\<close>
  returns \<^verbatim>\<open>np.nan\<close>: no exception, no number, and the root finder is called once, on this
  bracket. The root finder is any function that answers a bracket without sign change with
  \<^verbatim>\<open>ValueError\<close>, as \<^verbatim>\<open>brentq\<close> does; exhausted iterations are its \<^verbatim>\<open>RuntimeError\<close>. The
  witness is the example of the specification: a market price of twice the spot, for an
  at-the-money call.
\<close>

theorem implied_volatility_numerical_failure:
  assumes "0 < T" and "0 < market_price"
    and "\<And>f a b xtol maxiter fa fb.
           f a = Inr fa \<Longrightarrow> f b = Inr fb \<Longrightarrow> 0 < fa * fb \<Longrightarrow> brentq f a b xtol maxiter = Inl ValueError"
    and "(\<exists>fa fb. target_fn S K T r q market_price option_type (1 / 10 ^ 6) = Inr fa \<and>
             target_fn S K T r q market_price option_type 200 = Inr fb \<and> 0 < fa * fb)
         \<or> brentq (target_fn S K T r q market_price option_type) (1 / 10 ^ 6) 200 tol max_iter
              = Inl RuntimeError"
  shows "implied_volatility brentq S K T r q market_price option_type tol max_iter = Inr NaN"
proof -
  let ?res = "brentq (target_fn S K T r q market_price option_type) (1 / 10 ^ 6) 200 tol max_iter"
  from assms(4) have "?res = Inl ValueError \<or> ?res = Inl RuntimeError"
  proof
    assume "\<exists>fa fb. target_fn S K T r q market_price option_type (1 / 10 ^ 6) = Inr fa \<and>
             target_fn S K T r q market_price option_type 200 = Inr fb \<and> 0 < fa * fb"
    then obtain fa fb where
      "target_fn S K T r q market_price option_type (1 / 10 ^ 6) = Inr fa"
      "target_fn S K T r q market_price option_type 200 = Inr fb" "0 < fa * fb" by blast
    then have "?res = Inl ValueError" by (rule assms(3))
    then show ?thesis ..
  next
    assume "?res = Inl RuntimeError"
    then show ?thesis ..
  qed
  with assms(1,2) show ?thesis by (auto simp: implied_volatility_def)
qed

theorem implied_volatility_numerical_failure_witness:
  "implied_volatility brentq_spec 100 100 1 (4 / 100) (1 / 100) 200 ''c'' (1 / 10 ^ 6) 100 = Inr NaN"
proof (rule implied_volatility_numerical_failure)
  show "(0::real) < 1" and "(0::real) < 200" by simp_all
next
  fix f :: "real \<Rightarrow> exn + real" and a b xtol :: real and maxiter :: int and fa fb :: real
  assume "f a = Inr fa" "f b = Inr fb" "0 < fa * fb"
  then show "brentq_spec f a b xtol maxiter = Inl ValueError"
    by (rule brentq_spec_no_sign_change)
next
  let ?f = "target_fn 100 100 1 (4 / 100) (1 / 100) 200 ''c''"
  have neg: "bsm_call 100 100 1 (4 / 100) sigma (1 / 100) - 200 < 0" for sigma
    by (rule call_target_negative) simp_all
  have "?f (1 / 10 ^ 6) = Inr (bsm_call 100 100 1 (4 / 100) (1 / 10 ^ 6) (1 / 100) - 200)"
    and "?f 200 = Inr (bsm_call 100 100 1 (4 / 100) 200 (1 / 100) - 200)"
    by (simp_all add: target_fn_call)
  moreover have "0 < (bsm_call 100 100 1 (4 / 100) (1 / 10 ^ 6) (1 / 100) - 200)
                   * (bsm_call 100 100 1 (4 / 100) 200 (1 / 100) - 200)"
    by (intro mult_neg_neg neg)
  ultimately show "(\<exists>fa fb. ?f (1 / 10 ^ 6) = Inr fa \<and> ?f 200 = Inr fb \<and> 0 < fa * fb)
         \<or> brentq_spec ?f (1 / 10 ^ 6) 200 (1 / 10 ^ 6) 100 = Inl RuntimeError"
    by blast
qed

section \<open>The volatility that the solver returns\<close>



section \<open>Round-trip inversion\<close>

text \<open>
  Claim C8. For spot 100, every strike in \<open>{80, 100, 120}\<close>, half a year to expiration, rate
  0.04, dividend yield 0.01 and every volatility \<open>sigma\<close> in \<open>{0.1, 0.2, 0.5}\<close>, the pricer
  returns a call price, and \<^verbatim>\<open>implied_volatility\<close> called on that price with the default
  tolerance and iteration limit returns a volatility within \<open>1e-4\<close> of \<open>sigma\<close>. For spot
  100, strike 100, one year, rate 0.05, volatility 0.2 and no dividend the call price is 10.4506
  to four decimals, and the volatility recovered from it is 0.2000 to four decimals. The root
  finder is the one of the specification, and floats are the reals they denote.
\<close>

theorem round_trip_inversion:
  "(\<forall>K \<in> {80, 100, 120}. \<forall>sigma \<in> {1 / 10, 1 / 5, 1 / 2}.
      \<exists>price x. option_price 100 K (1 / 2) (4 / 100) sigma (1 / 100) ''c'' = Inr price \<and>
        implied_volatility brentq_spec 100 K (1 / 2) (4 / 100) (1 / 100) price ''c'' (1 / 10 ^ 6) 100
          = Inr (Num x) \<and>
        \<bar>x - sigma\<bar> \<le> 1 / 10 ^ 4) \<and>
   (\<exists>price x. option_price 100 100 1 (5 / 100) (1 / 5) 0 ''c'' = Inr price \<and>
      \<bar>price - 104506 / 10 ^ 4\<bar> \<le> 5 / 10 ^ 5 \<and>
      implied_volatility brentq_spec 100 100 1 (5 / 100) 0 price ''c'' (1 / 10 ^ 6) 100
        = Inr (Num x) \<and>
      \<bar>x - 1 / 5\<bar> \<le> 5 / 10 ^ 5)"
proof (intro conjI ballI)
  fix K sigma :: real
  assume "K \<in> {80, 100, 120}" and "sigma \<in> {1 / 10, 1 / 5, 1 / 2}"
  then have K: "K = 80 \<or> K = 100 \<or> K = 120"
    and s: "sigma = 1 / 10 \<or> sigma = 1 / 5 \<or> sigma = 1 / 2"
    by simp_all
  from K have "K \<noteq> 0" by auto
  then have p: "option_price 100 K (1 / 2) (4 / 100) sigma (1 / 100) ''c''
                  = Inr (bsm_call 100 K (1 / 2) (4 / 100) sigma (1 / 100))"
    by (rule option_price_call)
  from round_trip_half_year_grid [OF K s] p
  show "\<exists>price x. option_price 100 K (1 / 2) (4 / 100) sigma (1 / 100) ''c'' = Inr price \<and>
        implied_volatility brentq_spec 100 K (1 / 2) (4 / 100) (1 / 100) price ''c'' (1 / 10 ^ 6) 100
          = Inr (Num x) \<and>
        \<bar>x - sigma\<bar> \<le> 1 / 10 ^ 4"
    by blast
next
  have p: "option_price 100 100 1 (5 / 100) (1 / 5) 0 ''c''
             = Inr (bsm_call 100 100 1 (5 / 100) (1 / 5) 0)"
    by (rule option_price_call) simp
  have "\<bar>bsm_call 100 100 1 (5 / 100) (1 / 5) 0 - 104506 / 10 ^ 4\<bar> \<le> 5 / 10 ^ 5"
    unfolding abs_le_iff using scenario_price by simp
  with round_trip_scenario_tight p
  show "\<exists>price x. option_price 100 100 1 (5 / 100) (1 / 5) 0 ''c'' = Inr price \<and>
      \<bar>price - 104506 / 10 ^ 4\<bar> \<le> 5 / 10 ^ 5 \<and>
      implied_volatility brentq_spec 100 100 1 (5 / 100) 0 price ''c'' (1 / 10 ^ 6) 100
        = Inr (Num x) \<and>
      \<bar>x - 1 / 5\<bar> \<le> 5 / 10 ^ 5"
    by blast
qed

theorem round_trip_inversion_witness:
  "(120::real) \<in> {80, 100, 120} \<and> (1 / 10 :: real) \<in> {1 / 10, 1 / 5, 1 / 2} \<and>
   (\<exists>price x. option_price 100 120 (1 / 2) (4 / 100) (1 / 10) (1 / 100) ''c'' = Inr price \<and>
      implied_volatility brentq_spec 100 120 (1 / 2) (4 / 100) (1 / 100) price ''c'' (1 / 10 ^ 6) 100
        = Inr (Num x) \<and>
      \<bar>x - 1 / 10\<bar> \<le> 1 / 10 ^ 4)"
proof (intro conjI)
  show K: "(120::real) \<in> {80, 100, 120}" by simp
  show s: "(1 / 10 :: real) \<in> {1 / 10, 1 / 5, 1 / 2}" by simp
  from round_trip_inversion
  have "\<forall>K \<in> {80, 100, 120}. \<forall>sigma \<in> {1 / 10, 1 / 5, 1 / 2}.
      \<exists>price x. option_price 100 K (1 / 2) (4 / 100) sigma (1 / 100) ''c'' = Inr price \<and>
        implied_volatility brentq_spec 100 K (1 / 2) (4 / 100) (1 / 100) price ''c'' (1 / 10 ^ 6) 100
          = Inr (Num x) \<and>
        \<bar>x - sigma\<bar> \<le> 1 / 10 ^ 4"
    by (rule conjunct1)
  from this K have "\<forall>sigma \<in> {1 / 10, 1 / 5, 1 / 2}.
      \<exists>price x. option_price 100 120 (1 / 2) (4 / 100) sigma (1 / 100) ''c'' = Inr price \<and>
        implied_volatility brentq_spec 100 120 (1 / 2) (4 / 100) (1 / 100) price ''c'' (1 / 10 ^ 6) 100
          = Inr (Num x) \<and>
        \<bar>x - sigma\<bar> \<le> 1 / 10 ^ 4"
    by (rule bspec)
  from this s
  show "\<exists>price x. option_price 100 120 (1 / 2) (4 / 100) (1 / 10) (1 / 100) ''c'' = Inr price \<and>
      implied_volatility brentq_spec 100 120 (1 / 2) (4 / 100) (1 / 100) price ''c'' (1 / 10 ^ 6) 100
        = Inr (Num x) \<and>
      \<bar>x - 1 / 10\<bar> \<le> 1 / 10 ^ 4"
    by (rule bspec)
qed

end
